theory Spec2Isabelle
  imports Complex_Main "HOL-Library.Sublist"
begin

section \<open>Strings and character classes\<close>

text \<open>
  A JavaScript string is a sequence of UTF-16 code units. The model covers the texts
  whose code units lie in U+0000..U+00FF: one \<^typ>\<open>char\<close> per code unit, so that
  \<^term>\<open>length\<close> is the \<open>.length\<close> of the source. Numbers are the exact rationals;
  the source computes with IEEE doubles. A result of \<open>Math.random()\<close> is a rational too:
  the floor of a product with a draw can differ by one between the two arithmetics, so
  the properties of the insertion are stated for every draw.
\<close>

definition is_space :: "char \<Rightarrow> bool" where
  \<comment> \<open>the class \<open>\s\<close> (and what \<open>trim\<close> removes), below U+0100:
      TAB, LF, VT, FF, CR, SPACE, NBSP\<close>
  "is_space c = (of_char c \<in> {9, 10, 11, 12, 13, 32, 160 :: nat})"

definition is_punct :: "char \<Rightarrow> bool" where
  \<comment> \<open>the class \<open>[.!?]\<close>\<close>
  "is_punct c = (c = CHR ''.'' \<or> c = CHR ''!'' \<or> c = CHR ''?'')"

definition is_word_char :: "char \<Rightarrow> bool" where
  \<comment> \<open>the class \<open>\w\<close>: \<open>[A-Za-z0-9_]\<close>\<close>
  "is_word_char c =
     (let n = of_char c :: nat
      in (48 \<le> n \<and> n \<le> 57) \<or> (65 \<le> n \<and> n \<le> 90) \<or> n = 95 \<or> (97 \<le> n \<and> n \<le> 122))"

definition toLowerChar :: "char \<Rightarrow> char" where
  \<comment> \<open>\<open>toLowerCase\<close> on one code unit below U+0100: A-Z, and the Latin-1 capitals
      U+00C0..U+00DE without the multiplication sign U+00D7\<close>
  "toLowerChar c =
     (let n = of_char c :: nat
      in if (65 \<le> n \<and> n \<le> 90) \<or> (192 \<le> n \<and> n \<le> 222 \<and> n \<noteq> 215)
         then char_of (n + 32) else c)"

definition toLowerCase :: "string \<Rightarrow> string" where
  "toLowerCase s = map toLowerChar s"

definition trim :: "string \<Rightarrow> string" where
  "trim s = rev (dropWhile is_space (rev (dropWhile is_space s)))"

fun js_includes :: "string \<Rightarrow> string \<Rightarrow> bool" where
  \<comment> \<open>\<open>s.includes(k)\<close>: \<open>k\<close> occurs in \<open>s\<close> at some position\<close>
  "js_includes [] k = (k = [])"
| "js_includes (c # s) k = (prefix k (c # s) \<or> js_includes s k)"

fun join_sp :: "string list \<Rightarrow> string" where
  \<comment> \<open>\<open>ws.join(' ')\<close>\<close>
  "join_sp [] = []"
| "join_sp [w] = w"
| "join_sp (w # v # ws) = w @ '' '' @ join_sp (v # ws)"

section \<open>Splitting on a regular expression\<close>

text \<open>
  \<open>String.prototype.split\<close> with a regular expression scans the string from the end
  of the last match, one code unit at a time, for the next position where the
  expression matches; the piece before the match is emitted, then the captured groups,
  and the scan goes on after the match. The last piece runs to the end of the string.
\<close>

function split_on :: "(char \<Rightarrow> bool) \<Rightarrow> string \<Rightarrow> string list" where
  \<comment> \<open>\<open>s.split(/X+/)\<close> for a character class \<open>X\<close>: the match is the maximal run\<close>
  "split_on P s =
     (let piece = takeWhile (Not \<circ> P) s; rest = dropWhile (Not \<circ> P) s
      in if rest = [] then [piece] else piece # split_on P (dropWhile P rest))"
  by pat_completeness auto
termination
proof (relation "measure (\<lambda>(P, s). length s)")
  fix P :: "char \<Rightarrow> bool" and s piece rest :: string
  assume r: "rest = dropWhile (Not \<circ> P) s" and ne: "rest \<noteq> []"
  from ne obtain c cs where rc: "rest = c # cs" by (cases rest) auto
  have "P c" using r rc hd_dropWhile [of "Not \<circ> P" s] by (metis comp_apply list.sel(1) ne)
  then have "length (dropWhile P rest) \<le> length cs"
    using rc length_dropWhile_le [of P cs] by simp
  moreover have "length rest \<le> length s"
    using r length_dropWhile_le [of "Not \<circ> P" s] by simp
  ultimately show "((P, dropWhile P rest), (P, s)) \<in> measure (\<lambda>(P, s). length s)"
    using rc by simp
qed simp

declare split_on.simps [simp del]

definition split_ws :: "string \<Rightarrow> string list" where
  \<comment> \<open>\<open>s.split(/\s+/)\<close>\<close>
  "split_ws s = split_on is_space s"

function split_capture :: "string \<Rightarrow> string list" where
  \<comment> \<open>\<open>s.split(/([.!?]+\s*)/)\<close>: the delimiter, a run of punctuation with the
      whitespace after it, is captured and kept between the pieces\<close>
  "split_capture s =
     (let piece = takeWhile (Not \<circ> is_punct) s; rest = dropWhile (Not \<circ> is_punct) s
      in if rest = [] then [piece]
         else let r1 = dropWhile is_punct rest;
                  delim = takeWhile is_punct rest @ takeWhile is_space r1
              in piece # delim # split_capture (dropWhile is_space r1))"
  by pat_completeness auto
termination
proof (relation "measure length")
  fix s piece rest r1 delim :: string
  assume r: "rest = dropWhile (Not \<circ> is_punct) s" and ne: "rest \<noteq> []"
    and r1: "r1 = dropWhile is_punct rest"
  from ne obtain c cs where rc: "rest = c # cs" by (cases rest) auto
  have "is_punct c"
    using r rc hd_dropWhile [of "Not \<circ> is_punct" s] by (metis comp_apply list.sel(1) ne)
  then have "length r1 \<le> length cs"
    using rc r1 length_dropWhile_le [of is_punct cs] by simp
  moreover have "length (dropWhile is_space r1) \<le> length r1"
    by (rule length_dropWhile_le)
  moreover have "length rest \<le> length s"
    using r length_dropWhile_le [of "Not \<circ> is_punct" s] by simp
  ultimately show "(dropWhile is_space r1, s) \<in> measure length"
    using rc by simp
qed simp

declare split_capture.simps [simp del]

fun para_match :: "string \<Rightarrow> string option" where
  \<comment> \<open>\<open>/\n\s*\n/\<close> tried at the head of the string: the rest after the match.
      The greedy \<open>\s*\<close> backtracks to the last line feed of the whitespace run.\<close>
  "para_match [] = None"
| "para_match (c # cs) =
     (let run = takeWhile is_space cs
      in if c = CHR 0x0A \<and> CHR 0x0A \<in> set run
         then Some (rev (takeWhile (\<lambda>d. d \<noteq> CHR 0x0A) (rev run)) @ dropWhile is_space cs)
         else None)"

lemma para_match_shorter: "para_match s = Some r \<Longrightarrow> length r < length s"
proof (cases s)
  case Nil
  assume "para_match s = Some r"
  with Nil show ?thesis by simp
next
  case (Cons c cs)
  assume m: "para_match s = Some r"
  define run where "run = takeWhile is_space cs"
  from m Cons have nl: "CHR 0x0A \<in> set run"
    and r: "r = rev (takeWhile (\<lambda>d. d \<noteq> CHR 0x0A) (rev run)) @ dropWhile is_space cs"
    by (auto simp: run_def Let_def split: if_splits)
  have "length (takeWhile (\<lambda>d. d \<noteq> CHR 0x0A) (rev run)) \<le> length run"
    using length_takeWhile_le [of "\<lambda>d. d \<noteq> CHR 0x0A" "rev run"] by simp
  moreover have "length run + length (dropWhile is_space cs) = length cs"
    unfolding run_def by (metis length_append takeWhile_dropWhile_id)
  ultimately show ?thesis using r Cons by simp
qed

function split_para :: "string \<Rightarrow> string \<Rightarrow> string list" where
  \<comment> \<open>\<open>s.split(/\n\s*\n/)\<close>, the piece read so far in the first argument\<close>
  "split_para cur [] = [cur]"
| "split_para cur (c # cs) =
     (case para_match (c # cs) of
        Some rest \<Rightarrow> cur # split_para [] rest
      | None \<Rightarrow> split_para (cur @ [c]) cs)"
  by pat_completeness auto
termination
proof (relation "measure (\<lambda>(cur, s). length s)")
  fix cur rest :: string and c cs
  assume "para_match (c # cs) = Some rest"
  then have "length rest < length (c # cs)" by (rule para_match_shorter)
  then show "(([], rest), (cur, c # cs)) \<in> measure (\<lambda>(cur, s). length s)" by simp
qed simp_all

section \<open>The metrics engine: \<open>analyzeSEO\<close>\<close>

datatype suggestion_type = Readability | Length | Keywords

datatype priority = Low | Medium | High

record suggestion =
  stype :: suggestion_type
  message :: string
  priority :: priority

datatype jsfreq = FNum nat | FStr string
  \<comment> \<open>a value stored in \<open>wordFreq\<close>: a count, or the string that \<open>+ 1\<close> makes of an
      inherited property of the object\<close>

record keyword_candidate =
  keyword :: string
  frequency :: jsfreq
  relevance :: "rat option"  \<comment> \<open>\<open>None\<close> is NaN\<close>
  searchVolume :: int
  difficulty :: int

record metrics =
  wordCount :: nat
  sentenceCount :: nat
  paragraphCount :: nat
  readabilityScore :: int
  avgWordsPerSentence :: rat
  avgSentencesPerParagraph :: rat

record analysis =
  metrics :: metrics
  allKeywords :: "keyword_candidate list"  \<comment> \<open>the field \<open>keywords\<close>\<close>
  suggestions :: "suggestion list"

type_synonym random = "nat \<Rightarrow> rat"
  \<comment> \<open>the successive results of \<open>Math.random()\<close> during one call\<close>

definition js_round :: "rat \<Rightarrow> int" where
  \<comment> \<open>\<open>Math.round\<close>: to the nearest integer, halves upwards\<close>
  "js_round x = \<lfloor>x + 1 / 2\<rfloor>"

definition words_of :: "string \<Rightarrow> string list" where
  "words_of text = filter (\<lambda>word. length word > 0) (split_ws text)"

definition sentences_of :: "string \<Rightarrow> string list" where
  "sentences_of text = filter (\<lambda>s. length (trim s) > 0) (split_on is_punct text)"

definition paragraphs_of :: "string \<Rightarrow> string list" where
  "paragraphs_of text = filter (\<lambda>p. length (trim p) > 0) (split_para [] text)"

definition avgWords :: "string \<Rightarrow> rat" where
  "avgWords text =
     (if length (sentences_of text) > 0
      then of_nat (length (words_of text)) / of_nat (length (sentences_of text)) else 0)"

definition avgSentences :: "string \<Rightarrow> rat" where
  "avgSentences text =
     (if length (paragraphs_of text) > 0
      then of_nat (length (sentences_of text)) / of_nat (length (paragraphs_of text)) else 0)"

definition readabilityRaw :: "string \<Rightarrow> rat" where
  \<comment> \<open>\<open>206.835 - (1.015 * avgSentenceLength) - (84.6 * avgSyllablesPerWord)\<close>\<close>
  "readabilityRaw text = 206835 / 1000 - (1015 / 1000 * avgWords text) - (846 / 10 * (15 / 10))"

definition readability :: "string \<Rightarrow> rat" where
  \<comment> \<open>the local \<open>readabilityScore\<close>, clamped and not yet rounded\<close>
  "readability text = max 0 (min 100 (readabilityRaw text))"

definition commonWords :: "string list" where
  "commonWords =
     [''the'', ''and'', ''or'', ''but'', ''in'', ''on'', ''at'', ''to'', ''for'', ''of'',
      ''with'', ''by'', ''is'', ''are'', ''was'', ''were'', ''be'', ''been'', ''have'',
      ''has'', ''had'', ''do'', ''does'', ''did'', ''will'', ''would'', ''could'',
      ''should'', ''may'', ''might'', ''can'', ''must'', ''shall'', ''a'', ''an'', ''this'',
      ''that'', ''these'', ''those'']"

definition cleanWord :: "string \<Rightarrow> string" where
  \<comment> \<open>\<open>word.toLowerCase().replace(/[^\w]/g, '')\<close>\<close>
  "cleanWord word = filter is_word_char (toLowerCase word)"

type_synonym wordFreq = "(string \<times> jsfreq) list"
  \<comment> \<open>the own properties of the object \<open>wordFreq\<close>, in the order of their creation\<close>

fun put :: "string \<Rightarrow> jsfreq \<Rightarrow> wordFreq \<Rightarrow> wordFreq" where
  \<comment> \<open>assignment to a property: an own property keeps its place, a new one goes last\<close>
  "put k v [] = [(k, v)]"
| "put k v ((k', v') # fm) = (if k' = k then (k, v) # fm else (k', v') # put k v fm)"

definition objectToString :: string where
  \<comment> \<open>what \<open>+\<close> makes of the function \<open>Object\<close>\<close>
  "objectToString = ''function Object() { [native code] }''"

definition count_word :: "wordFreq \<Rightarrow> string \<Rightarrow> wordFreq" where
  \<comment> \<open>\<open>wordFreq[cleanWord] = (wordFreq[cleanWord] || 0) + 1\<close>. The object is a literal
      \<open>{}\<close>, so a key it does not own is looked up in \<open>Object.prototype\<close>. Of the names
      there only \<open>constructor\<close> and \<open>__proto__\<close> are in lower case, as every cleaned word
      is. \<open>constructor\<close> reads as the function \<open>Object\<close>, which is truthy and which \<open>+ 1\<close>
      turns into a string. \<open>__proto__\<close> reads as an object, and assigning the resulting
      string to it is ignored.\<close>
  "count_word fm k =
     (case map_of fm k of
        Some (FNum n) \<Rightarrow> put k (FNum (n + 1)) fm
      | Some (FStr s) \<Rightarrow> put k (FStr (s @ ''1'')) fm
      | None \<Rightarrow>
          if k = ''__proto__'' then fm
          else if k = ''constructor'' then put k (FStr (objectToString @ ''1'')) fm
          else put k (FNum 1) fm)"

definition count_step :: "wordFreq \<Rightarrow> string \<Rightarrow> wordFreq" where
  \<comment> \<open>the body of \<open>words.forEach\<close>\<close>
  "count_step fm word =
     (let cw = cleanWord word
      in if length cw > 3 \<and> cw \<notin> set commonWords then count_word fm cw else fm)"

definition wordFreq_of :: "string list \<Rightarrow> wordFreq" where
  "wordFreq_of ws = foldl count_step [] ws"

definition dec_val :: "string \<Rightarrow> int" where
  "dec_val s = foldl (\<lambda>a c. 10 * a + (of_char c - 48)) 0 s"

definition is_array_index :: "string \<Rightarrow> bool" where
  \<comment> \<open>a canonical numeric string below \<open>2^32 - 1\<close>\<close>
  "is_array_index s =
     (s \<noteq> [] \<and> (\<forall>c \<in> set s. 48 \<le> (of_char c :: nat) \<and> (of_char c :: nat) \<le> 57)
      \<and> (s = ''0'' \<or> hd s \<noteq> CHR ''0'') \<and> dec_val s \<le> 4294967294)"

definition entries :: "wordFreq \<Rightarrow> (string \<times> jsfreq) list" where
  \<comment> \<open>\<open>Object.entries\<close>: the array indices in ascending order, then the other keys in
      the order of their creation\<close>
  "entries fm =
     sort_key (\<lambda>(k, v). dec_val k) (filter (\<lambda>(k, v). is_array_index k) fm)
     @ filter (\<lambda>(k, v). \<not> is_array_index k) fm"

fun goes_before :: "jsfreq \<Rightarrow> jsfreq \<Rightarrow> bool" where
  \<comment> \<open>the comparator \<open>([,a], [,b]) => b - a\<close> is negative; with a string the
      difference is NaN, which the sort takes as zero\<close>
  "goes_before (FNum a) (FNum b) = (b < a)"
| "goes_before _ _ = False"

fun insert_desc :: "string \<times> jsfreq \<Rightarrow> (string \<times> jsfreq) list \<Rightarrow> (string \<times> jsfreq) list" where
  "insert_desc x [] = [x]"
| "insert_desc x (y # ys) =
     (if goes_before (snd y) (snd x) then y # insert_desc x ys else x # y # ys)"

definition sort_desc :: "(string \<times> jsfreq) list \<Rightarrow> (string \<times> jsfreq) list" where
  \<comment> \<open>\<open>Array.prototype.sort\<close> with that comparator: the stable sort. When a string
      frequency makes the comparator inconsistent the language leaves the order to the
      implementation, and an engine may order such a list otherwise than this insertion
      from the right does.\<close>
  "sort_desc xs = foldr insert_desc xs []"

definition relevance_of :: "jsfreq \<Rightarrow> nat \<Rightarrow> rat option" where
  \<comment> \<open>\<open>Math.min(100, (freq / words.length) * 1000)\<close>\<close>
  "relevance_of f n =
     (case f of FNum k \<Rightarrow> Some (min 100 (of_nat k / of_nat n * 1000)) | FStr _ \<Rightarrow> None)"

definition top_entries :: "string \<Rightarrow> (string \<times> jsfreq) list" where
  "top_entries text = take 10 (sort_desc (entries (wordFreq_of (words_of text))))"

definition topKeywords :: "random \<Rightarrow> string \<Rightarrow> keyword_candidate list" where
  "topKeywords rnd text =
     map (\<lambda>(i, (word, freq)).
            \<lparr>keyword = word, frequency = freq,
             relevance = relevance_of freq (length (words_of text)),
             searchVolume = \<lfloor>rnd (2 * i) * 10000\<rfloor> + 100,
             difficulty = \<lfloor>rnd (2 * i + 1) * 100\<rfloor> + 1\<rparr>)
         (enumerate 0 (top_entries text))"

definition vocabulary :: "string list" where
  "vocabulary =
     [''digital marketing'', ''content strategy'', ''SEO optimization'', ''online presence'',
      ''brand awareness'', ''user engagement'', ''conversion rate'', ''social media'',
      ''target audience'', ''market research'', ''competitive analysis'', ''growth hacking'']"

definition suggestedKeywords :: "random \<Rightarrow> nat \<Rightarrow> keyword_candidate list" where
  \<comment> \<open>\<open>base\<close> counts the draws made before\<close>
  "suggestedKeywords rnd base =
     map (\<lambda>(j, kw).
            \<lparr>keyword = kw, frequency = FNum 0,
             relevance = Some (of_int (\<lfloor>rnd (base + 3 * j) * 80\<rfloor> + 20)),
             searchVolume = \<lfloor>rnd (base + 3 * j + 1) * 50000\<rfloor> + 1000,
             difficulty = \<lfloor>rnd (base + 3 * j + 2) * 100\<rfloor> + 1\<rparr>)
         (enumerate 0 vocabulary)"

definition readability_suggestion :: "rat \<Rightarrow> suggestion" where
  "readability_suggestion score =
     \<lparr>stype = Readability,
      message =
        (if score < 30 then ''Text is quite difficult to read. Consider shorter sentences.''
         else if score < 60
           then ''Text readability is moderate. Could be improved with simpler language.''
         else ''Text has good readability for general audience.''),
      priority = (if score < 30 then High else if score < 60 then Medium else Low)\<rparr>"

definition length_suggestion :: "nat \<Rightarrow> suggestion" where
  "length_suggestion n =
     \<lparr>stype = Length,
      message =
        (if n < 300 then ''Content is quite short. Consider expanding for better SEO.''
         else if n > 2000 then ''Content is very long. Consider breaking into sections.''
         else ''Content length is appropriate for SEO.''),
      priority = (if n < 300 \<or> n > 2000 then Medium else Low)\<rparr>"

definition keywords_suggestion :: "nat \<Rightarrow> suggestion" where
  "keywords_suggestion n =
     \<lparr>stype = Keywords,
      message =
        (if n < 5 then ''Limited keyword diversity. Consider adding more relevant terms.''
         else ''Good keyword diversity detected.''),
      priority = (if n < 5 then High else Low)\<rparr>"

definition analyzeSEO :: "random \<Rightarrow> string \<Rightarrow> analysis" where
  "analyzeSEO rnd text =
     (let top = topKeywords rnd text;
          suggested = suggestedKeywords rnd (2 * length top)
      in \<lparr>metrics =
            \<lparr>wordCount = length (words_of text),
             sentenceCount = length (sentences_of text),
             paragraphCount = length (paragraphs_of text),
             readabilityScore = js_round (readability text),
             avgWordsPerSentence = of_int (js_round (avgWords text * 10)) / 10,
             avgSentencesPerParagraph = of_int (js_round (avgSentences text * 10)) / 10\<rparr>,
          allKeywords = top @ take 8 suggested,
          suggestions =
            [readability_suggestion (readability text),
             length_suggestion (length (words_of text)),
             keywords_suggestion (length top)]\<rparr>)"

datatype error = ValidationError | InternalError

definition analyze :: "random \<Rightarrow> string \<Rightarrow> error + analysis" where
  \<comment> \<open>the handler of \<open>POST /api/analyze\<close> on a string \<open>text\<close>; \<open>analyzeSEO\<close> throws on
      no string, so the 500 answer is never given\<close>
  "analyze rnd text =
     (if text = [] \<or> length (trim text) = 0 then Inl ValidationError
      else if length text > 50000 then Inl ValidationError
      else Inr (analyzeSEO rnd text))"

section \<open>The insertion planner: \<open>insertKeywordIntelligently\<close>\<close>

record insertion_result =
  updatedText :: string
  inserted :: bool

definition keyword_present :: "string \<Rightarrow> string \<Rightarrow> bool" where
  \<comment> \<open>\<open>words.some(word => word.includes(keyword.toLowerCase()))\<close> over
      \<open>text.toLowerCase().split(/\s+/)\<close>\<close>
  "keyword_present text kw =
     list_ex (\<lambda>word. js_includes word (toLowerCase kw)) (split_ws (toLowerCase text))"

definition segment_score :: "nat \<Rightarrow> nat \<Rightarrow> string \<Rightarrow> rat" where
  \<comment> \<open>the score of \<open>sentences[i]\<close>, \<open>n\<close> being \<open>sentences.length\<close>\<close>
  "segment_score n i sentence =
     (let sentenceWords = split_ws (toLowerCase sentence);
          lengthScore = min (of_nat (length sentenceWords) / 20) 1;
          positionScore = 1 - \<bar>of_nat i - of_nat n / 2\<bar> / of_nat n
      in lengthScore * (6 / 10) + positionScore * (4 / 10))"

definition qualifies :: "string \<Rightarrow> bool" where
  \<comment> \<open>the negation of \<open>!sentence || sentence.trim().length < 10\<close>\<close>
  "qualifies sentence = (sentence \<noteq> [] \<and> \<not> length (trim sentence) < 10)"

definition score_step :: "nat \<Rightarrow> nat \<Rightarrow> string \<Rightarrow> nat \<times> rat \<Rightarrow> nat \<times> rat" where
  \<comment> \<open>one turn of the loop on the pair \<open>(bestPosition, bestScore)\<close>\<close>
  "score_step n i sentence best =
     (if \<not> qualifies sentence then best
      else if segment_score n i sentence > snd best then (i, segment_score n i sentence)
      else best)"

fun scan :: "nat \<Rightarrow> nat \<Rightarrow> string list \<Rightarrow> nat \<times> rat \<Rightarrow> nat \<times> rat" where
  \<comment> \<open>\<open>for (let i = 0; i < sentences.length; i += 2)\<close>, on the entries from \<open>i\<close> on\<close>
  "scan n i [] best = best"
| "scan n i [s] best = score_step n i s best"
| "scan n i (s # d # rest) best = scan n (i + 2) rest (score_step n i s best)"

definition bestPosition :: "string list \<Rightarrow> nat" where
  "bestPosition sentences = fst (scan (length sentences) 0 sentences (0, 0))"

definition slice_point :: "int \<Rightarrow> nat \<Rightarrow> nat" where
  \<comment> \<open>how \<open>slice\<close> reads an index on an array of length \<open>n\<close>: a negative one counts
      from the end, and the result stays within the array\<close>
  "slice_point k n = (if k < 0 then nat (max (int n + k) 0) else min (nat k) n)"

definition connectors :: "string list" where
  "connectors = [''including'', ''such as'', ''like'', ''especially'', ''particularly'']"

definition connector_at :: "int \<Rightarrow> string" where
  \<comment> \<open>\<open>connectors[k]\<close> inside the template: no such element prints as \<open>undefined\<close>\<close>
  "connector_at k = (if 0 \<le> k \<and> k < 5 then connectors ! nat k else ''undefined'')"

definition insertIndex :: "random \<Rightarrow> nat \<Rightarrow> int" where
  \<comment> \<open>\<open>Math.floor(n * 0.3) + Math.floor(Math.random() * Math.floor(n * 0.4))\<close>\<close>
  "insertIndex rnd n =
     \<lfloor>of_nat n * (3 / 10 :: rat)\<rfloor> + \<lfloor>rnd 0 * of_int \<lfloor>of_nat n * (4 / 10 :: rat)\<rfloor>\<rfloor>"

definition insert_into :: "random \<Rightarrow> string \<Rightarrow> string \<Rightarrow> string" where
  \<comment> \<open>the new value of \<open>sentences[bestPosition]\<close>\<close>
  "insert_into rnd kw sentence =
     (let words = split_ws sentence;
          cut = slice_point (insertIndex rnd (length words)) (length words);
          beforeKeyword = join_sp (take cut words);
          afterKeyword = join_sp (drop cut words);
          connector = connector_at \<lfloor>rnd 1 * 5\<rfloor>
      in beforeKeyword @ '' '' @ connector @ '' '' @ kw @ '' '' @ afterKeyword)"

definition insertKeywordIntelligently :: "random \<Rightarrow> string \<Rightarrow> string \<Rightarrow> string" where
  "insertKeywordIntelligently rnd text kw =
     (let sentences = split_capture text
      in if keyword_present text kw then text
         else let bp = bestPosition sentences
              in if bp < length sentences \<and> sentences ! bp \<noteq> []
                 then concat (sentences[bp := insert_into rnd kw (sentences ! bp)])
                 else concat sentences)"

definition insertKeyword :: "random \<Rightarrow> string \<Rightarrow> string \<Rightarrow> error + insertion_result" where
  \<comment> \<open>the handler of \<open>POST /api/insert-keyword\<close> on two strings\<close>
  "insertKeyword rnd text kw =
     (if text = [] \<or> kw = [] then Inl ValidationError
      else let updated = insertKeywordIntelligently rnd text kw
           in Inr \<lparr>updatedText = updated, inserted = (updated \<noteq> text)\<rparr>)"

section \<open>Notions of the specification\<close>

definition accepted :: "string \<Rightarrow> bool" where
  \<comment> \<open>the text passes both guards of the handler of \<open>POST /api/analyze\<close>\<close>
  "accepted text = (\<not> (text = [] \<or> length (trim text) = 0) \<and> \<not> length text > 50000)"

definition token_count :: "string \<Rightarrow> nat" where
  \<comment> \<open>the number of maximal runs of characters that are not whitespace, each counted
      at the position where it starts\<close>
  "token_count s =
     length (filter (\<lambda>i. \<not> is_space (s ! i) \<and> (i = 0 \<or> is_space (s ! (i - 1))))
       [0..<length s])"

definition starts_at :: "bool \<Rightarrow> string \<Rightarrow> nat \<Rightarrow> bool" where
  \<comment> \<open>a token starts at position \<open>i\<close>; \<open>b\<close> tells whether one may start at 0\<close>
  "starts_at b s i = (\<not> is_space (s ! i) \<and> (if i = 0 then b else is_space (s ! (i - 1))))"

fun tok_starts :: "bool \<Rightarrow> string \<Rightarrow> nat" where
  \<comment> \<open>the same count, read from left to right\<close>
  "tok_starts b [] = 0"
| "tok_starts b (c # cs) = (if \<not> is_space c \<and> b then 1 else 0) + tok_starts (is_space c) cs"

definition nonspace :: "string \<Rightarrow> string" where
  \<comment> \<open>the characters of a string that are not whitespace, in their order\<close>
  "nonspace s = filter (Not \<circ> is_space) s"

definition performs :: "string \<Rightarrow> string \<Rightarrow> bool" where
  \<comment> \<open>\<open>insertKeywordIntelligently\<close> reaches the assignment to
      \<open>sentences[bestPosition]\<close>\<close>
  "performs text kw =
     (\<not> keyword_present text kw
      \<and> split_capture text ! bestPosition (split_capture text) \<noteq> [])"

definition candidates :: "string list \<Rightarrow> nat list" where
  \<comment> \<open>the indices the loop scores: the even ones whose entry passes the guard\<close>
  "candidates ss = filter (\<lambda>i. even i \<and> qualifies (ss ! i)) [0..<length ss]"

fun even_entries :: "nat \<Rightarrow> string list \<Rightarrow> (nat \<times> string) list" where
  \<comment> \<open>the entries the loop visits, each with its index, counting from \<open>i\<close>\<close>
  "even_entries i [] = []"
| "even_entries i [s] = [(i, s)]"
| "even_entries i (s # d # rest) = (i, s) # even_entries (i + 2) rest"

definition first_max :: "nat \<Rightarrow> (nat \<times> string) list \<Rightarrow> nat \<times> rat \<Rightarrow> nat \<times> rat \<Rightarrow> bool" where
  \<comment> \<open>\<open>r\<close> is the start value \<open>b0\<close>, which no entry of \<open>ps\<close> beats, or the first entry
      of \<open>ps\<close> with the greatest score, which beats \<open>b0\<close>\<close>
  "first_max n ps b0 r =
     ((r = b0 \<and> (\<forall>(k, s) \<in> set ps. qualifies s \<longrightarrow> segment_score n k s \<le> snd b0))
      \<or> (\<exists>pre k s post. ps = pre @ (k, s) # post \<and> qualifies s
            \<and> r = (k, segment_score n k s) \<and> snd b0 < segment_score n k s
            \<and> (\<forall>(k', s') \<in> set pre. qualifies s' \<longrightarrow> segment_score n k' s' < segment_score n k s)
            \<and> (\<forall>(k', s') \<in> set post. qualifies s' \<longrightarrow> segment_score n k' s' \<le> segment_score n k s)))"

text \<open>
  The scoring as the specification words it: the segments are the pieces between the
  delimiters, numbered 0, 1, 2, ..., and both the index and the total of the position
  score count segments only.
\<close>

definition segments_of :: "string \<Rightarrow> string list" where
  "segments_of text =
     (let ss = split_capture text in map (\<lambda>i. ss ! i) (filter even [0..<length ss]))"

definition spec_score :: "nat \<Rightarrow> nat \<Rightarrow> string \<Rightarrow> rat" where
  "spec_score tot j seg =
     6 / 10 * min (of_nat (length (split_ws (toLowerCase seg))) / 20) 1
     + 4 / 10 * (1 - \<bar>of_nat j - of_nat tot / 2\<bar> / of_nat tot)"

definition spec_selects :: "string \<Rightarrow> nat \<Rightarrow> bool" where
  \<comment> \<open>segment \<open>j\<close> has at least 10 characters and the greatest score among such
      segments, and is the first of those\<close>
  "spec_selects text j =
     (let segs = segments_of text; tot = length segs
      in j < tot \<and> 10 \<le> length (segs ! j)
         \<and> list_all (\<lambda>k. 10 \<le> length (segs ! k) \<longrightarrow>
               spec_score tot k (segs ! k) \<le> spec_score tot j (segs ! j)
               \<and> (k < j \<longrightarrow> spec_score tot k (segs ! k) < spec_score tot j (segs ! j)))
             [0..<tot])"

fun insert_repeatedly :: "(nat \<Rightarrow> random) \<Rightarrow> nat \<Rightarrow> string \<Rightarrow> string \<Rightarrow> string" where
  \<comment> \<open>the text after \<open>n\<close> calls, each on the result of the one before; \<open>rs k\<close> is
      the random source of call \<open>k\<close>\<close>
  "insert_repeatedly rs 0 text kw = text"
| "insert_repeatedly rs (Suc n) text kw =
     insertKeywordIntelligently (rs n) (insert_repeatedly rs n text kw) kw"

definition counted :: "wordFreq \<Rightarrow> bool" where
  \<comment> \<open>every stored value is a count, and at least 1\<close>
  "counted fm = (\<forall>(k, v) \<in> set fm. \<exists>n. v = FNum n \<and> 1 \<le> n)"

fun fnum :: "jsfreq \<Rightarrow> nat" where
  "fnum (FNum n) = n"
| "fnum (FStr s) = 0"

definition spec_readability_priority :: "int \<Rightarrow> priority" where
  \<comment> \<open>the bands of the specification's table, read on the score that is returned\<close>
  "spec_readability_priority score =
     (if score < 30 then High else if score < 60 then Medium else Low)"

fun occurrences :: "string \<Rightarrow> string \<Rightarrow> nat" where
  \<comment> \<open>the number of positions of the text where the keyword stands verbatim\<close>
  "occurrences k [] = 0"
| "occurrences k (c # s) = (if prefix k (c # s) then 1 else 0) + occurrences k s"

definition constant_draw :: "rat \<Rightarrow> random" where
  \<comment> \<open>the random source that draws \<open>x\<close> every time\<close>
  "constant_draw x k = x"

definition inside_draws :: "nat \<Rightarrow> random" where
  \<comment> \<open>the random sources of five calls in a row; each draw is a double\<close>
  "inside_draws n =
     constant_draw (if n < 5 then [1 / 4, 5 / 8, 11 / 16, 5 / 8, 13 / 16] ! n else 0)"

section \<open>Properties of the metrics engine\<close>

subsection \<open>Validation\<close>

lemma trim_Nil_iff: "trim s = [] \<longleftrightarrow> (\<forall>c \<in> set s. is_space c)"
proof -
  have "trim s = [] \<longleftrightarrow> (\<forall>c \<in> set (dropWhile is_space s). is_space c)"
    by (simp add: trim_def dropWhile_eq_Nil_conv)
  also have "\<dots> \<longleftrightarrow> dropWhile is_space s = []"
  proof
    assume a: "\<forall>c \<in> set (dropWhile is_space s). is_space c"
    show "dropWhile is_space s = []"
    proof (rule ccontr)
      assume ne: "dropWhile is_space s \<noteq> []"
      then have "\<not> is_space (hd (dropWhile is_space s))" by (rule hd_dropWhile)
      with a ne show False by (meson list.set_sel(1))
    qed
  next
    assume e: "dropWhile is_space s = []"
    show "\<forall>c \<in> set (dropWhile is_space s). is_space c" unfolding e by simp
  qed
  also have "\<dots> \<longleftrightarrow> (\<forall>c \<in> set s. is_space c)" by (simp add: dropWhile_eq_Nil_conv)
  finally show ?thesis .
qed

lemma analyze_accepted: "accepted text \<Longrightarrow> analyze rnd text = Inr (analyzeSEO rnd text)"
  by (auto simp: accepted_def analyze_def)

lemma accepted_hello: "accepted ''hello''"
  by (simp add: accepted_def trim_def is_space_def)

lemma accepted_fox: "accepted ''The quick brown fox jumps. The lazy dog sleeps.''"
  by (simp add: accepted_def trim_def is_space_def)

text \<open>
  Claim C8. \<open>analyze\<close> fails with \<open>ValidationError\<close> exactly when the text is empty, consists
  of whitespace only, or is longer than 50,000 characters; on every other string it
  returns the analysis computed by \<open>analyzeSEO\<close>.
\<close>

theorem analyze_validation:
  "(analyze rnd text = Inl ValidationError \<longleftrightarrow>
      text = [] \<or> (\<forall>c \<in> set text. is_space c) \<or> 50000 < length text)
   \<and> (analyze rnd text \<noteq> Inl ValidationError \<longrightarrow>
        analyze rnd text = Inr (analyzeSEO rnd text))"
  by (auto simp: analyze_def trim_Nil_iff)

theorem analyze_validation_witness:
  "analyze (\<lambda>_. 0) [CHR '' '', CHR 0x09] = Inl ValidationError
   \<and> analyze (\<lambda>_. 0) (replicate 50001 CHR ''a'') = Inl ValidationError
   \<and> analyze (\<lambda>_. 0) ''hello'' \<noteq> Inl ValidationError
   \<and> analyze (\<lambda>_. 0) ''hello'' = Inr (analyzeSEO (\<lambda>_. 0) ''hello'')"
  using analyze_validation [of "\<lambda>_. 0" "[CHR '' '', CHR 0x09]"]
    analyze_validation [of "\<lambda>_. 0" "replicate 50001 CHR ''a''"]
    analyze_validation [of "\<lambda>_. 0" "''hello''"]
  by (simp add: is_space_def)

subsection \<open>Readability\<close>

lemma avgWords_nonneg: "0 \<le> avgWords text"
  by (simp add: avgWords_def)

lemma readabilityRaw_eq: "readabilityRaw text = 79935 / 1000 - 1015 / 1000 * avgWords text"
  by (simp add: readabilityRaw_def)

lemma readabilityRaw_le: "readabilityRaw text \<le> 79935 / 1000"
  using avgWords_nonneg [of "text"] by (simp add: readabilityRaw_eq)

lemma readability_bounds: "0 \<le> readability text \<and> readability text \<le> 79935 / 1000"
  using readabilityRaw_le [of "text"] by (simp add: readability_def)

lemma js_round_mono: "x \<le> y \<Longrightarrow> js_round x \<le> js_round y"
  by (simp add: js_round_def floor_mono)

lemma js_round_of_int: "js_round (of_int k) = k"
  by (simp add: js_round_def) linarith

lemma rounded_readability_bounds:
  "0 \<le> js_round (readability text) \<and> js_round (readability text) \<le> 80"
proof -
  have "js_round 0 \<le> js_round (readability text)"
    using readability_bounds by (intro js_round_mono) simp
  moreover have "js_round (readability text) \<le> js_round 80"
    using readability_bounds [of "text"] by (intro js_round_mono) simp
  moreover have "js_round 0 = 0" "js_round 80 = 80"
    using js_round_of_int [of 0] js_round_of_int [of 80] by simp_all
  ultimately show ?thesis by simp
qed

text \<open>
  Claim C6. For every text that \<open>analyze\<close> accepts (not empty, not blank, at most 50,000
  characters), among them the single word and the text without sentence punctuation,
  the analysis is returned and its \<open>readabilityScore\<close> lies between 0 and 100.
\<close>

theorem readabilityScore_range:
  "accepted text \<Longrightarrow>
     \<exists>r. analyze rnd text = Inr r
       \<and> 0 \<le> readabilityScore (metrics r) \<and> readabilityScore (metrics r) \<le> 100"
  using rounded_readability_bounds [of "text"]
  by (simp add: analyze_accepted analyzeSEO_def Let_def)

theorem readabilityScore_range_witness:
  "accepted ''hello''
   \<and> (\<exists>r. analyze (\<lambda>_. 0) ''hello'' = Inr r
         \<and> 0 \<le> readabilityScore (metrics r) \<and> readabilityScore (metrics r) \<le> 100)"
  using readabilityScore_range [OF accepted_hello, of "\<lambda>_. 0"] accepted_hello by simp

text \<open>
  Claim C9. For every accepted text the returned \<open>readabilityScore\<close> is at most 80: before
  clamping the score is \<open>79.935 - 1.015 * avgWordsPerSentence\<close>, which is at most 79.935,
  so the upper bound 100 of the clamp is never reached.
\<close>

theorem readabilityScore_le_80:
  "accepted text \<Longrightarrow>
     \<exists>r. analyze rnd text = Inr r \<and> readabilityScore (metrics r) \<le> 80
       \<and> readabilityRaw text = 79935 / 1000 - 1015 / 1000 * avgWords text
       \<and> readabilityRaw text \<le> 79935 / 1000
       \<and> min 100 (readabilityRaw text) = readabilityRaw text"
  using rounded_readability_bounds [of "text"] readabilityRaw_le [of "text"]
    readabilityRaw_eq [of "text"]
  by (simp add: analyze_accepted analyzeSEO_def Let_def)

theorem readabilityScore_le_80_witness:
  "accepted ''The quick brown fox jumps. The lazy dog sleeps.''
   \<and> (\<exists>r. analyze (\<lambda>_. 0) ''The quick brown fox jumps. The lazy dog sleeps.'' = Inr r
         \<and> readabilityScore (metrics r) \<le> 80)"
  using readabilityScore_le_80 [OF accepted_fox, of "\<lambda>_. 0"] accepted_fox by blast

subsection \<open>Suggestions\<close>

text \<open>
  Claim C5, as stated, on a sentence of twenty words. The score before rounding is
  59.635: the code compares this one, finds it below 60 and gives the priority medium.
  The score that is returned is the rounded one, 60, whose band is low.
\<close>

theorem rounded_band_counterexample:
  "analyze (constant_draw 0) ''one two three four five six seven eight nine ten one two three four five six seven eight nine ten'' = Inr (analyzeSEO (constant_draw 0) ''one two three four five six seven eight nine ten one two three four five six seven eight nine ten'')
   \<and> readability ''one two three four five six seven eight nine ten one two three four five six seven eight nine ten'' = 59635 / 1000
   \<and> readabilityScore (metrics (analyzeSEO (constant_draw 0) ''one two three four five six seven eight nine ten one two three four five six seven eight nine ten'')) = 60
   \<and> map priority (suggestions (analyzeSEO (constant_draw 0) ''one two three four five six seven eight nine ten one two three four five six seven eight nine ten'')) = [Medium, Medium, Low]
   \<and> spec_readability_priority (readabilityScore (metrics (analyzeSEO (constant_draw 0) ''one two three four five six seven eight nine ten one two three four five six seven eight nine ten''))) = Low
   \<and> priority (hd (suggestions (analyzeSEO (constant_draw 0) ''one two three four five six seven eight nine ten one two three four five six seven eight nine ten'')))
       \<noteq> spec_readability_priority (readabilityScore (metrics (analyzeSEO (constant_draw 0) ''one two three four five six seven eight nine ten one two three four five six seven eight nine ten'')))"
proof -
  have a: "analyze (constant_draw 0) ''one two three four five six seven eight nine ten one two three four five six seven eight nine ten'' = Inr (analyzeSEO (constant_draw 0) ''one two three four five six seven eight nine ten one two three four five six seven eight nine ten'')"
    by (simp add: analyze_def trim_def is_space_def)
  have r: "readability ''one two three four five six seven eight nine ten one two three four five six seven eight nine ten'' = 59635 / 1000"
    by code_simp
  have k: "length (topKeywords (constant_draw 0) ''one two three four five six seven eight nine ten one two three four five six seven eight nine ten'') = 6"
    by code_simp
  have w: "length (words_of ''one two three four five six seven eight nine ten one two three four five six seven eight nine ten'') = 20"
    by code_simp
  have j: "js_round (59635 / 1000) = 60" by code_simp
  have m0: "readabilityScore (metrics (analyzeSEO (constant_draw 0) ''one two three four five six seven eight nine ten one two three four five six seven eight nine ten'')) = js_round (readability ''one two three four five six seven eight nine ten one two three four five six seven eight nine ten'')"
    by (simp add: analyzeSEO_def Let_def)
  have m: "readabilityScore (metrics (analyzeSEO (constant_draw 0) ''one two three four five six seven eight nine ten one two three four five six seven eight nine ten'')) = 60"
    unfolding m0 r by (rule j)
  have p0: "map priority (suggestions (analyzeSEO (constant_draw 0) ''one two three four five six seven eight nine ten one two three four five six seven eight nine ten''))
      = [if readability ''one two three four five six seven eight nine ten one two three four five six seven eight nine ten'' < 30 then High
         else if readability ''one two three four five six seven eight nine ten one two three four five six seven eight nine ten'' < 60 then Medium else Low,
         if length (words_of ''one two three four five six seven eight nine ten one two three four five six seven eight nine ten'') < 300 \<or> length (words_of ''one two three four five six seven eight nine ten one two three four five six seven eight nine ten'') > 2000 then Medium else Low,
         if length (topKeywords (constant_draw 0) ''one two three four five six seven eight nine ten one two three four five six seven eight nine ten'') < 5 then High else Low]"
    by (simp add: analyzeSEO_def Let_def readability_suggestion_def
        length_suggestion_def keywords_suggestion_def)
  have p: "map priority (suggestions (analyzeSEO (constant_draw 0) ''one two three four five six seven eight nine ten one two three four five six seven eight nine ten'')) = [Medium, Medium, Low]"
    unfolding p0 r k w by simp
  have s: "spec_readability_priority 60 = Low" by (simp add: spec_readability_priority_def)
  have s': "spec_readability_priority (readabilityScore (metrics (analyzeSEO (constant_draw 0) ''one two three four five six seven eight nine ten one two three four five six seven eight nine ten''))) = Low"
    unfolding m by (rule s)
  have h0: "priority (hd (suggestions (analyzeSEO (constant_draw 0) ''one two three four five six seven eight nine ten one two three four five six seven eight nine ten'')))
      = (if readability ''one two three four five six seven eight nine ten one two three four five six seven eight nine ten'' < 30 then High
         else if readability ''one two three four five six seven eight nine ten one two three four five six seven eight nine ten'' < 60 then Medium else Low)"
    by (simp add: analyzeSEO_def Let_def readability_suggestion_def)
  have h: "priority (hd (suggestions (analyzeSEO (constant_draw 0) ''one two three four five six seven eight nine ten one two three four five six seven eight nine ten'')))
      \<noteq> spec_readability_priority (readabilityScore (metrics (analyzeSEO (constant_draw 0) ''one two three four five six seven eight nine ten one two three four five six seven eight nine ten'')))"
    unfolding h0 r s' by simp
  show ?thesis
    by (intro conjI) (fact a | fact r | fact m | fact p | fact s' | fact h)+
qed

text \<open>
  Claim C5, amended. For every accepted text the analysis holds exactly three suggestions,
  of the types readability, length and keywords in this order. The readability one has
  priority high when the clamped score before rounding is below 30, medium when it is
  below 60, low otherwise; the returned \<open>readabilityScore\<close> is that score rounded. The
  length one is medium when the word count is below 300 or above 2000, else low; the
  keywords one is high when fewer than five candidates were extracted, else low.
\<close>

theorem suggestions_three:
  "accepted text \<Longrightarrow>
     \<exists>r a b c. analyze rnd text = Inr r \<and> suggestions r = [a, b, c]
       \<and> stype a = Readability \<and> stype b = Length \<and> stype c = Keywords
       \<and> priority a = (if readability text < 30 then High
                        else if readability text < 60 then Medium else Low)
       \<and> readabilityScore (metrics r) = js_round (readability text)
       \<and> priority b = (if wordCount (metrics r) < 300 \<or> wordCount (metrics r) > 2000
                        then Medium else Low)
       \<and> priority c = (if length (topKeywords rnd text) < 5 then High else Low)"
  by (simp add: analyze_accepted analyzeSEO_def Let_def readability_suggestion_def
      length_suggestion_def keywords_suggestion_def)

theorem suggestions_three_witness:
  "accepted ''hello''
   \<and> (\<exists>r a b c. analyze (\<lambda>_. 0) ''hello'' = Inr r \<and> suggestions r = [a, b, c]
         \<and> stype a = Readability \<and> stype b = Length \<and> stype c = Keywords
         \<and> priority a = Low \<and> readabilityScore (metrics r) = 79
         \<and> priority b = Medium \<and> priority c = High)"
proof -
  have rd: "readability ''hello'' = 7892 / 100" by code_simp
  have rr: "js_round (7892 / 100) = 79" by code_simp
  have wc: "length (words_of ''hello'') = 1" by code_simp
  have tk: "length (topKeywords (\<lambda>_. 0) ''hello'') = 1" by code_simp
  from suggestions_three [OF accepted_hello, of "\<lambda>_. 0"]
  obtain r a b c where h: "analyze (\<lambda>_. 0) ''hello'' = Inr r" "suggestions r = [a, b, c]"
    "stype a = Readability" "stype b = Length" "stype c = Keywords"
    "priority a = (if readability ''hello'' < 30 then High
                   else if readability ''hello'' < 60 then Medium else Low)"
    "readabilityScore (metrics r) = js_round (readability ''hello'')"
    "priority b = (if wordCount (metrics r) < 300 \<or> wordCount (metrics r) > 2000
                   then Medium else Low)"
    "priority c = (if length (topKeywords (\<lambda>_. 0) ''hello'') < 5 then High else Low)"
    by blast
  from h(1) have "r = analyzeSEO (\<lambda>_. 0) ''hello''"
    by (simp add: analyze_accepted [OF accepted_hello])
  then have "wordCount (metrics r) = 1" using wc by (simp add: analyzeSEO_def Let_def)
  with h rd rr tk accepted_hello show ?thesis by auto
qed

subsection \<open>Word count\<close>

lemma upt_len_Cons: "[0..<length (c # cs)] = 0 # map Suc [0..<length cs]"
  by (metis length_Cons map_Suc_upt upt_conv_Cons zero_less_Suc)

lemma starts_at_Suc: "starts_at b (c # cs) (Suc i) = starts_at (is_space c) cs i"
  by (cases i) (simp_all add: starts_at_def)

lemma starts_at_0: "starts_at b (c # cs) 0 = (\<not> is_space c \<and> b)"
  by (simp add: starts_at_def)

lemma tok_starts_index: "tok_starts b s = length (filter (starts_at b s) [0..<length s])"
proof (induction s arbitrary: b)
  case Nil
  show ?case by simp
next
  case (Cons c cs)
  have f: "filter (starts_at b (c # cs)) (map Suc [0..<length cs])
         = map Suc (filter (starts_at (is_space c) cs) [0..<length cs])"
    by (simp only: filter_map comp_def starts_at_Suc)
  have e: "filter (starts_at b (c # cs)) [0..<length (c # cs)]
         = (if \<not> is_space c \<and> b then [0] else [])
           @ map Suc (filter (starts_at (is_space c) cs) [0..<length cs])"
    by (simp only: upt_len_Cons filter.simps f starts_at_0) simp
  have "length (filter (starts_at b (c # cs)) [0..<length (c # cs)])
      = (if \<not> is_space c \<and> b then 1 else 0)
        + length (filter (starts_at (is_space c) cs) [0..<length cs])"
    by (simp only: e length_append length_map) simp
  then show ?case using Cons.IH [of "is_space c"] by (simp only: tok_starts.simps)
qed

lemma token_count_starts: "token_count s = tok_starts True s"
proof -
  have "(\<lambda>i. \<not> is_space (s ! i) \<and> (i = 0 \<or> is_space (s ! (i - 1)))) = starts_at True s"
    by (rule ext) (simp add: starts_at_def)
  then show ?thesis by (simp only: token_count_def tok_starts_index)
qed

lemma tok_starts_word:
  "\<forall>c \<in> set p. \<not> is_space c \<Longrightarrow>
     tok_starts b (p @ r) = (if p \<noteq> [] \<and> b then 1 else 0) + tok_starts (p = [] \<and> b) r"
  by (induction p arbitrary: b) auto

lemma tok_starts_gap:
  "\<forall>c \<in> set p. is_space c \<Longrightarrow> p \<noteq> [] \<Longrightarrow> tok_starts b (p @ r) = tok_starts True r"
proof (induction p arbitrary: b)
  case Nil
  then show ?case by simp
next
  case (Cons c p)
  then show ?case by (cases p) auto
qed

lemma split_on_unfold_last:
  "dropWhile (Not \<circ> P) s = [] \<Longrightarrow> split_on P s = [takeWhile (Not \<circ> P) s]"
  by (subst split_on.simps) (simp only: Let_def simp_thms if_True)

lemma split_on_unfold_more:
  "dropWhile (Not \<circ> P) s \<noteq> [] \<Longrightarrow>
     split_on P s = takeWhile (Not \<circ> P) s # split_on P (dropWhile P (dropWhile (Not \<circ> P) s))"
  by (subst split_on.simps) (simp only: Let_def simp_thms if_False)

lemma split_on_words:
  "length (filter (\<lambda>w. w \<noteq> []) (split_on is_space s)) = tok_starts True s"
proof (induction "length s" arbitrary: s rule: less_induct)
  case less
  define piece where "piece = takeWhile (Not \<circ> is_space) s"
  define rest where "rest = dropWhile (Not \<circ> is_space) s"
  have s: "s = piece @ rest" by (simp only: piece_def rest_def takeWhile_dropWhile_id)
  have pw: "\<forall>c \<in> set piece. \<not> is_space c"
    unfolding piece_def by (auto dest: set_takeWhileD)
  have w: "tok_starts True s = (if piece \<noteq> [] then 1 else 0) + tok_starts (piece = []) rest"
    using tok_starts_word [OF pw, of True rest] s by simp
  show ?case
  proof (cases "rest = []")
    case True
    then have "split_on is_space s = [piece]"
      unfolding rest_def piece_def by (rule split_on_unfold_last)
    then show ?thesis using w True by simp
  next
    case False
    define gap where "gap = takeWhile is_space rest"
    define more where "more = dropWhile is_space rest"
    have r: "rest = gap @ more" by (simp only: gap_def more_def takeWhile_dropWhile_id)
    have "\<not> (Not \<circ> is_space) (hd rest)"
      using False unfolding rest_def by (rule hd_dropWhile)
    then have "is_space (hd rest)" by simp
    then have gne: "gap \<noteq> []" using False by (cases rest) (auto simp: gap_def)
    have gs: "\<forall>c \<in> set gap. is_space c" unfolding gap_def by (auto dest: set_takeWhileD)
    have sp: "split_on is_space s = piece # split_on is_space more"
      using False unfolding rest_def piece_def more_def by (rule split_on_unfold_more)
    have "length more < length s" using s r gne by (cases gap) simp_all
    then have ih: "length (filter (\<lambda>w. w \<noteq> []) (split_on is_space more)) = tok_starts True more"
      by (rule less)
    have "tok_starts (piece = []) rest = tok_starts True more"
      using tok_starts_gap [OF gs gne, of "piece = []" more] r by simp
    then show ?thesis using w sp ih by simp
  qed
qed

text \<open>
  Claim C7. For every accepted text the analysis is returned and its \<open>wordCount\<close> is the
  number of non-empty maximal whitespace-delimited tokens of the text.
\<close>

theorem wordCount_tokens:
  "accepted text \<Longrightarrow>
     \<exists>r. analyze rnd text = Inr r \<and> wordCount (metrics r) = token_count text"
  by (simp add: analyze_accepted analyzeSEO_def Let_def words_of_def split_ws_def
      split_on_words token_count_starts)

theorem wordCount_tokens_witness:
  "accepted ''The quick brown fox jumps. The lazy dog sleeps.''
   \<and> (\<exists>r. analyze (\<lambda>_. 0) ''The quick brown fox jumps. The lazy dog sleeps.'' = Inr r
         \<and> wordCount (metrics r) = 9)"
proof -
  have "token_count ''The quick brown fox jumps. The lazy dog sleeps.'' = 9"
    by code_simp
  with wordCount_tokens [OF accepted_fox, of "\<lambda>_. 0"] accepted_fox show ?thesis by auto
qed

subsection \<open>Keyword candidates\<close>

lemma put_set: "set (put k v fm) \<subseteq> insert (k, v) (set fm)"
  by (induction fm) (auto split: if_splits)

lemma counted_put: "counted fm \<Longrightarrow> 1 \<le> n \<Longrightarrow> counted (put k (FNum n) fm)"
  using put_set [of k "FNum n" fm] unfolding counted_def by fastforce

lemma count_word_counted:
  assumes "counted fm" and "k \<noteq> ''constructor''"
  shows "counted (count_word fm k)"
proof (cases "map_of fm k")
  case None
  with assms show ?thesis by (simp add: count_word_def counted_put)
next
  case (Some v)
  then have "(k, v) \<in> set fm" by (rule map_of_SomeD)
  with assms(1) obtain n where "v = FNum n" unfolding counted_def by blast
  with Some assms(1) show ?thesis by (simp add: count_word_def counted_put)
qed

lemma count_step_counted:
  "counted fm \<Longrightarrow> cleanWord w \<noteq> ''constructor'' \<Longrightarrow> counted (count_step fm w)"
  by (simp add: count_step_def Let_def count_word_counted)

lemma wordFreq_counted:
  "''constructor'' \<notin> cleanWord ` set ws \<Longrightarrow> counted fm \<Longrightarrow> counted (foldl count_step fm ws)"
  by (induction ws arbitrary: fm) (auto simp: count_step_counted)

lemma entries_set: "set (entries fm) = set fm"
  by (auto simp: entries_def)

lemma insert_desc_set: "set (insert_desc x ys) = insert x (set ys)"
  by (induction ys) auto

lemma sort_desc_set: "set (sort_desc xs) = set xs"
  unfolding sort_desc_def by (induction xs) (simp_all add: insert_desc_set)

lemma goes_before_fnum:
  "goes_before (FNum a) v \<longleftrightarrow> (\<exists>b. v = FNum b \<and> b < a)"
  by (cases v) auto

lemma insert_desc_sorted:
  assumes "\<forall>p \<in> set (x # ys). \<exists>n. snd p = FNum n"
    and "sorted_wrt (\<lambda>p q. fnum (snd q) \<le> fnum (snd p)) ys"
  shows "sorted_wrt (\<lambda>p q. fnum (snd q) \<le> fnum (snd p)) (insert_desc x ys)"
  using assms
proof (induction ys)
  case Nil
  show ?case by simp
next
  case (Cons y ys)
  obtain a b where ab: "snd x = FNum a" "snd y = FNum b" using Cons.prems(1) by auto
  show ?case
  proof (cases "goes_before (snd y) (snd x)")
    case True
    then have "a < b" using ab by simp
    moreover have "sorted_wrt (\<lambda>p q. fnum (snd q) \<le> fnum (snd p)) (insert_desc x ys)"
      using Cons by simp
    ultimately show ?thesis using True Cons.prems(2) ab by (auto simp: insert_desc_set)
  next
    case False
    then have "b \<le> a" using ab by simp
    then show ?thesis using False Cons.prems(2) ab by fastforce
  qed
qed

lemma sort_desc_sorted:
  "\<forall>p \<in> set xs. \<exists>n. snd p = FNum n \<Longrightarrow>
     sorted_wrt (\<lambda>p q. fnum (snd q) \<le> fnum (snd p)) (sort_desc xs)"
proof (induction xs)
  case Nil
  show ?case by (simp add: sort_desc_def)
next
  case (Cons x xs)
  have "sorted_wrt (\<lambda>p q. fnum (snd q) \<le> fnum (snd p)) (insert_desc x (sort_desc xs))"
    using Cons by (intro insert_desc_sorted) (auto simp: sort_desc_set)
  then show ?case by (simp add: sort_desc_def)
qed

lemma topKeywords_frequency: "map frequency (topKeywords rnd text) = map snd (top_entries text)"
proof -
  have "map frequency (topKeywords rnd text) = map (snd \<circ> snd) (enumerate 0 (top_entries text))"
    unfolding topKeywords_def by (auto simp: comp_def split_def)
  also have "\<dots> = map snd (map snd (enumerate 0 (top_entries text)))"
    by (simp only: map_map)
  also have "\<dots> = map snd (top_entries text)" by (simp only: map_snd_enumerate)
  finally show ?thesis .
qed

lemma suggested_frequency:
  "map (\<lambda>k. (keyword k, frequency k)) (take 8 (suggestedKeywords rnd b))
     = map (\<lambda>w. (w, FNum 0)) (take 8 vocabulary)"
  by (simp add: suggestedKeywords_def vocabulary_def enumerate_eq_zip upt_conv_Cons)

text \<open>
  On a text none of whose cleaned words is \<open>constructor\<close> the list is as intended: at most
  ten extracted candidates with counts of at least 1 in non-increasing order, then the
  first eight phrases of the vocabulary with frequency 0, at most 18 entries in all.
\<close>

lemma keywords_without_constructor:
  assumes "''constructor'' \<notin> cleanWord ` set (words_of text)"
  shows "\<exists>ns. allKeywords (analyzeSEO rnd text)
        = topKeywords rnd text @ take 8 (suggestedKeywords rnd (2 * length (topKeywords rnd text)))
      \<and> map frequency (topKeywords rnd text) = map FNum ns
      \<and> length ns \<le> 10 \<and> (\<forall>n \<in> set ns. 1 \<le> n) \<and> sorted_wrt (\<ge>) ns
      \<and> map (\<lambda>k. (keyword k, frequency k))
            (take 8 (suggestedKeywords rnd (2 * length (topKeywords rnd text))))
          = map (\<lambda>w. (w, FNum 0)) (take 8 vocabulary)
      \<and> length (allKeywords (analyzeSEO rnd text)) \<le> 18"
proof -
  define es where "es = sort_desc (entries (wordFreq_of (words_of text)))"
  have c: "counted (wordFreq_of (words_of text))"
    unfolding wordFreq_of_def using assms by (rule wordFreq_counted) (simp add: counted_def)
  then have all: "\<forall>p \<in> set es. \<exists>n. snd p = FNum n \<and> 1 \<le> n"
    unfolding es_def counted_def by (auto simp: sort_desc_set entries_set)
  have "\<forall>p \<in> set (entries (wordFreq_of (words_of text))). \<exists>n. snd p = FNum n"
    using c unfolding counted_def by (auto simp: entries_set)
  then have so: "sorted_wrt (\<lambda>p q. fnum (snd q) \<le> fnum (snd p)) es"
    unfolding es_def by (rule sort_desc_sorted)
  define ns where "ns = map (fnum \<circ> snd) (take 10 es)"
  have in10: "\<forall>p \<in> set (take 10 es). \<exists>n. snd p = FNum n \<and> 1 \<le> n"
    using all by (auto dest: in_set_takeD)
  have f: "map snd (top_entries text) = map FNum ns"
    unfolding top_entries_def es_def [symmetric] ns_def using in10 by auto
  have l: "length ns \<le> 10" by (simp add: ns_def)
  have p: "\<forall>n \<in> set ns. 1 \<le> n" unfolding ns_def using in10 by fastforce
  have "sorted_wrt (\<lambda>p q. fnum (snd q) \<le> fnum (snd p)) (take 10 es)"
    using so by (rule sorted_wrt_take)
  then have s: "sorted_wrt (\<ge>) ns"
    unfolding ns_def by (simp add: sorted_wrt_map)
  have lt: "length (topKeywords rnd text) = length ns"
    using f topKeywords_frequency [of rnd "text"] by (metis length_map)
  have k: "allKeywords (analyzeSEO rnd text)
        = topKeywords rnd text @ take 8 (suggestedKeywords rnd (2 * length (topKeywords rnd text)))"
    by (simp add: analyzeSEO_def Let_def)
  have "length (take 8 (suggestedKeywords rnd (2 * length (topKeywords rnd text)))) \<le> 8" by simp
  then have n: "length (allKeywords (analyzeSEO rnd text)) \<le> 18"
    unfolding k using lt l by simp
  show ?thesis
    using k f l p s n suggested_frequency topKeywords_frequency [of rnd "text"] by (intro exI [of _ ns]) simp
qed

text \<open>
  Claim C4. The list of keywords should hold the extracted candidates, each with a
  frequency of at least 1, before the curated ones. On the text \<open>constructor\<close> the one
  extracted candidate carries a string as its frequency: the lookup in the empty object
  finds the inherited property, and \<open>+ 1\<close> appends to its text.
\<close>

theorem constructor_frequency:
  "analyze rnd ''constructor'' = Inr (analyzeSEO rnd ''constructor'')
   \<and> map (\<lambda>k. (keyword k, frequency k)) (take 1 (allKeywords (analyzeSEO rnd ''constructor'')))
       = [(''constructor'', FStr ''function Object() { [native code] }1'')]
   \<and> map frequency (drop 1 (allKeywords (analyzeSEO rnd ''constructor'')))
       = replicate 8 (FNum 0)"
  by code_simp

section \<open>Properties of the insertion planner\<close>

subsection \<open>Pieces of a split\<close>

lemma run_shorter:
  assumes "dropWhile (Not \<circ> P) s \<noteq> []"
  shows "length (dropWhile P (dropWhile (Not \<circ> P) s)) < length s"
proof -
  obtain c cs where rc: "dropWhile (Not \<circ> P) s = c # cs"
    using assms by (cases "dropWhile (Not \<circ> P) s") auto
  have "\<not> (Not \<circ> P) (hd (dropWhile (Not \<circ> P) s))" using assms by (rule hd_dropWhile)
  then have "P c" using rc by simp
  then have "dropWhile P (c # cs) = dropWhile P cs" by simp
  moreover have "length (dropWhile P cs) \<le> length cs" by (rule length_dropWhile_le)
  moreover have "length (c # cs) \<le> length s"
    using length_dropWhile_le [of "Not \<circ> P" s] rc by simp
  ultimately show ?thesis using rc by simp
qed

lemma split_on_pieces: "w \<in> set (split_on P s) \<Longrightarrow> c \<in> set w \<Longrightarrow> \<not> P c"
proof (induction "length s" arbitrary: s rule: less_induct)
  case less
  define rest where "rest = dropWhile (Not \<circ> P) s"
  have tw: "\<forall>d \<in> set (takeWhile (Not \<circ> P) s). \<not> P d" by (auto dest: set_takeWhileD)
  show ?case
  proof (cases "rest = []")
    case True
    then have "split_on P s = [takeWhile (Not \<circ> P) s]"
      unfolding rest_def by (rule split_on_unfold_last)
    with less.prems tw show ?thesis by simp
  next
    case False
    then have sp: "split_on P s = takeWhile (Not \<circ> P) s # split_on P (dropWhile P rest)"
      unfolding rest_def by (rule split_on_unfold_more)
    have lt: "length (dropWhile P rest) < length s"
      using False unfolding rest_def by (rule run_shorter)
    from less.prems sp consider "w = takeWhile (Not \<circ> P) s" | "w \<in> set (split_on P (dropWhile P rest))"
      by auto
    then show ?thesis
    proof cases
      case 1
      with tw less.prems show ?thesis by simp
    next
      case 2
      from less.hyps [OF lt 2 less.prems(2)] show ?thesis .
    qed
  qed
qed

lemma split_on_concat: "concat (split_on P s) = filter (Not \<circ> P) s"
proof (induction "length s" arbitrary: s rule: less_induct)
  case less
  define piece where "piece = takeWhile (Not \<circ> P) s"
  define rest where "rest = dropWhile (Not \<circ> P) s"
  have s: "s = piece @ rest" by (simp only: piece_def rest_def takeWhile_dropWhile_id)
  have fp: "filter (Not \<circ> P) piece = piece"
    unfolding piece_def by (simp add: filter_id_conv) (auto dest: set_takeWhileD)
  show ?case
  proof (cases "rest = []")
    case True
    then have "split_on P s = [piece]"
      unfolding rest_def piece_def by (rule split_on_unfold_last)
    then show ?thesis using s True fp by simp
  next
    case False
    define gap where "gap = takeWhile P rest"
    define more where "more = dropWhile P rest"
    have r: "rest = gap @ more" by (simp only: gap_def more_def takeWhile_dropWhile_id)
    have "\<not> (Not \<circ> P) (hd rest)" using False unfolding rest_def by (rule hd_dropWhile)
    then have gne: "gap \<noteq> []" using False by (cases rest) (auto simp: gap_def)
    have fg: "filter (Not \<circ> P) gap = []"
      unfolding gap_def by (simp add: filter_empty_conv) (auto dest: set_takeWhileD)
    have sp: "split_on P s = piece # split_on P more"
      using False unfolding rest_def piece_def more_def by (rule split_on_unfold_more)
    have "length more < length s" using s r gne by (cases gap) simp_all
    then have "concat (split_on P more) = filter (Not \<circ> P) more" by (rule less)
    moreover have "filter (Not \<circ> P) s = piece @ filter (Not \<circ> P) more"
      by (subst s, subst r) (simp only: filter_append fp fg append_Nil)
    ultimately show ?thesis using sp by simp
  qed
qed

lemma is_space_toLowerChar: "is_space (toLowerChar c) = is_space c"
proof -
  have "(of_char c :: nat) < 256" by simp
  then show ?thesis
    by (auto simp: is_space_def toLowerChar_def Let_def)
qed

lemma js_includes_iff: "js_includes s k \<longleftrightarrow> (\<exists>p q. s = p @ k @ q)"
proof (induction s)
  case Nil
  show ?case by simp
next
  case (Cons c s)
  show ?case
  proof
    assume "js_includes (c # s) k"
    then consider "prefix k (c # s)" | "js_includes s k" by auto
    then show "\<exists>p q. c # s = p @ k @ q"
    proof cases
      case 1
      then obtain q where "c # s = k @ q" by (auto simp: prefix_def)
      then have "c # s = [] @ k @ q" by simp
      then show ?thesis by blast
    next
      case 2
      with Cons.IH obtain p q where "s = p @ k @ q" by blast
      then have "c # s = (c # p) @ k @ q" by simp
      then show ?thesis by blast
    qed
  next
    assume "\<exists>p q. c # s = p @ k @ q"
    then obtain p q where e: "c # s = p @ k @ q" by blast
    show "js_includes (c # s) k"
    proof (cases p)
      case Nil
      with e have "prefix k (c # s)" by (simp add: prefix_def)
      then show ?thesis by simp
    next
      case (Cons d p')
      with e have "s = p' @ k @ q" by simp
      with Cons.IH have "js_includes s k" by blast
      then show ?thesis by simp
    qed
  qed
qed

lemma whitespace_keyword_absent:
  assumes "\<exists>c \<in> set kw. is_space c"
  shows "\<not> keyword_present text kw"
proof
  assume "keyword_present text kw"
  then obtain w where w: "w \<in> set (split_ws (toLowerCase text))"
    and i: "js_includes w (toLowerCase kw)"
    by (auto simp: keyword_present_def list_ex_iff)
  from assms obtain c where c: "c \<in> set kw" "is_space c" by blast
  then have "toLowerChar c \<in> set (toLowerCase kw)" by (simp add: toLowerCase_def)
  moreover from i obtain p q where "w = p @ toLowerCase kw @ q"
    unfolding js_includes_iff by blast
  ultimately have "toLowerChar c \<in> set w" by simp
  with w have "\<not> is_space (toLowerChar c)"
    unfolding split_ws_def by (rule split_on_pieces)
  with c(2) show False by (simp add: is_space_toLowerChar)
qed

subsection \<open>The capturing split\<close>

lemma split_capture_last:
  "dropWhile (Not \<circ> is_punct) s = [] \<Longrightarrow> split_capture s = [takeWhile (Not \<circ> is_punct) s]"
  by (subst split_capture.simps) (simp only: Let_def simp_thms if_True)

lemma split_capture_more:
  "dropWhile (Not \<circ> is_punct) s \<noteq> [] \<Longrightarrow>
     split_capture s =
       takeWhile (Not \<circ> is_punct) s
       # (takeWhile is_punct (dropWhile (Not \<circ> is_punct) s)
          @ takeWhile is_space (dropWhile is_punct (dropWhile (Not \<circ> is_punct) s)))
       # split_capture (dropWhile is_space (dropWhile is_punct (dropWhile (Not \<circ> is_punct) s)))"
  by (subst split_capture.simps) (simp only: Let_def simp_thms if_False)

lemma capture_shorter:
  assumes "dropWhile (Not \<circ> is_punct) s \<noteq> []"
  shows "length (dropWhile is_space (dropWhile is_punct (dropWhile (Not \<circ> is_punct) s))) < length s"
proof -
  have "length (dropWhile is_space (dropWhile is_punct (dropWhile (Not \<circ> is_punct) s)))
        \<le> length (dropWhile is_punct (dropWhile (Not \<circ> is_punct) s))"
    by (rule length_dropWhile_le)
  with run_shorter [OF assms] show ?thesis by simp
qed

lemma split_capture_hd: "hd (split_capture s) = takeWhile (Not \<circ> is_punct) s"
  by (cases "dropWhile (Not \<circ> is_punct) s = []")
    (simp_all add: split_capture_last split_capture_more)

lemma split_capture_nonempty: "split_capture s \<noteq> []"
  by (cases "dropWhile (Not \<circ> is_punct) s = []")
    (simp_all add: split_capture_last split_capture_more)

lemma split_capture_concat: "concat (split_capture s) = s"
proof (induction "length s" arbitrary: s rule: less_induct)
  case less
  define rest where "rest = dropWhile (Not \<circ> is_punct) s"
  show ?case
  proof (cases "rest = []")
    case True
    then have "split_capture s = [takeWhile (Not \<circ> is_punct) s]"
      unfolding rest_def by (rule split_capture_last)
    moreover have "takeWhile (Not \<circ> is_punct) s @ rest = s"
      unfolding rest_def by (rule takeWhile_dropWhile_id)
    ultimately show ?thesis using True by simp
  next
    case False
    define r1 where "r1 = dropWhile is_punct rest"
    define r2 where "r2 = dropWhile is_space r1"
    have sp: "split_capture s =
        takeWhile (Not \<circ> is_punct) s # (takeWhile is_punct rest @ takeWhile is_space r1)
        # split_capture r2"
      using False unfolding rest_def r1_def r2_def by (rule split_capture_more)
    have "length r2 < length s"
      using False unfolding rest_def r1_def r2_def by (rule capture_shorter)
    then have ih: "concat (split_capture r2) = r2" by (rule less)
    have "takeWhile (Not \<circ> is_punct) s @ rest = s"
      unfolding rest_def by (rule takeWhile_dropWhile_id)
    moreover have "takeWhile is_punct rest @ r1 = rest"
      unfolding r1_def by (rule takeWhile_dropWhile_id)
    moreover have "takeWhile is_space r1 @ r2 = r1"
      unfolding r2_def by (rule takeWhile_dropWhile_id)
    ultimately have "s = takeWhile (Not \<circ> is_punct) s @ takeWhile is_punct rest
        @ takeWhile is_space r1 @ r2" by simp
    then show ?thesis using sp ih by simp
  qed
qed

text \<open>The entries at even places hold no punctuation; those at odd places start with it.\<close>

lemma split_capture_shape:
  "i < length (split_capture s) \<Longrightarrow>
     (even i \<longrightarrow> (\<forall>c \<in> set (split_capture s ! i). \<not> is_punct c))
     \<and> (odd i \<longrightarrow> split_capture s ! i \<noteq> [] \<and> is_punct (hd (split_capture s ! i)))"
proof (induction "length s" arbitrary: s i rule: less_induct)
  case less
  define rest where "rest = dropWhile (Not \<circ> is_punct) s"
  have tw: "\<forall>c \<in> set (takeWhile (Not \<circ> is_punct) s). \<not> is_punct c"
    by (auto dest: set_takeWhileD)
  show ?case
  proof (cases "rest = []")
    case True
    then have "split_capture s = [takeWhile (Not \<circ> is_punct) s]"
      unfolding rest_def by (rule split_capture_last)
    with less.prems tw show ?thesis by simp
  next
    case False
    define r1 where "r1 = dropWhile is_punct rest"
    define r2 where "r2 = dropWhile is_space r1"
    define delim where "delim = takeWhile is_punct rest @ takeWhile is_space r1"
    have sp: "split_capture s = takeWhile (Not \<circ> is_punct) s # delim # split_capture r2"
      using False unfolding rest_def r1_def r2_def delim_def by (rule split_capture_more)
    have lt: "length r2 < length s"
      using False unfolding rest_def r1_def r2_def by (rule capture_shorter)
    have "\<not> (Not \<circ> is_punct) (hd rest)" using False unfolding rest_def by (rule hd_dropWhile)
    then have hp: "is_punct (hd rest)" by simp
    then have d: "delim \<noteq> [] \<and> is_punct (hd delim)"
      using False by (cases rest) (auto simp: delim_def)
    show ?thesis
    proof (cases i)
      case 0
      with sp tw show ?thesis by simp
    next
      case (Suc j)
      show ?thesis
      proof (cases j)
        case 0
        with Suc sp d show ?thesis by simp
      next
        case (Suc k)
        with \<open>i = Suc j\<close> less.prems sp have "k < length (split_capture r2)" by simp
        from less.hyps [OF lt this] Suc \<open>i = Suc j\<close> sp show ?thesis by simp
      qed
    qed
  qed
qed

subsection \<open>The scoring loop\<close>

lemma scan_fold:
  "scan n i xs best = foldl (\<lambda>b (k, s). score_step n k s b) best (even_entries i xs)"
  by (induction n i xs best rule: scan.induct) simp_all

lemma first_max_step:
  assumes "first_max n ps b0 r"
  shows "first_max n (ps @ [(k, s)]) b0 (score_step n k s r)"
proof (cases "qualifies s \<and> segment_score n k s > snd r")
  case True
  then have st: "score_step n k s r = (k, segment_score n k s)" by (simp add: score_step_def)
  have below: "\<forall>(k', s') \<in> set ps. qualifies s' \<longrightarrow> segment_score n k' s' < segment_score n k s"
    and b0: "snd b0 < segment_score n k s"
    using assms True unfolding first_max_def by (fastforce)+
  have "ps @ [(k, s)] = ps @ (k, s) # []" by simp
  with st below b0 True show ?thesis unfolding first_max_def by (metis (no_types, lifting) empty_iff list.set(1))
next
  case False
  then have st: "score_step n k s r = r" by (auto simp: score_step_def)
  from assms consider
    (a) "r = b0" "\<forall>(k, s) \<in> set ps. qualifies s \<longrightarrow> segment_score n k s \<le> snd b0"
  | (b) pre k0 s0 post where "ps = pre @ (k0, s0) # post" "qualifies s0"
      "r = (k0, segment_score n k0 s0)" "snd b0 < segment_score n k0 s0"
      "\<forall>(k', s') \<in> set pre. qualifies s' \<longrightarrow> segment_score n k' s' < segment_score n k0 s0"
      "\<forall>(k', s') \<in> set post. qualifies s' \<longrightarrow> segment_score n k' s' \<le> segment_score n k0 s0"
    unfolding first_max_def by blast
  then show ?thesis
  proof cases
    case a
    with False have "\<forall>(k', s') \<in> set (ps @ [(k, s)]). qualifies s' \<longrightarrow> segment_score n k' s' \<le> snd b0"
      by auto
    with a st show ?thesis unfolding first_max_def by simp
  next
    case b
    from b(3) False have "qualifies s \<longrightarrow> segment_score n k s \<le> segment_score n k0 s0" by auto
    with b(6) have "\<forall>(k', s') \<in> set (post @ [(k, s)]). qualifies s' \<longrightarrow>
        segment_score n k' s' \<le> segment_score n k0 s0" by auto
    moreover have "ps @ [(k, s)] = pre @ (k0, s0) # (post @ [(k, s)])" using b(1) by simp
    ultimately show ?thesis unfolding first_max_def st using b(2-5) by blast
  qed
qed

lemma first_max_fold:
  "first_max n ps b0 (foldl (\<lambda>b (k, s). score_step n k s b) b0 ps)"
proof (induction ps rule: rev_induct)
  case Nil
  show ?case by (simp add: first_max_def)
next
  case (snoc p ps)
  obtain k s where p: "p = (k, s)" by (cases p)
  from first_max_step [OF snoc.IH, of k s] show ?case by (simp add: p)
qed

lemma even_entries_mem:
  "(k, s) \<in> set (even_entries i xs) \<longleftrightarrow> (\<exists>j. k = i + 2 * j \<and> 2 * j < length xs \<and> s = xs ! (2 * j))"
proof (induction i xs arbitrary: k s rule: even_entries.induct)
  case (1 i)
  show ?case by simp
next
  case (2 i x)
  show ?case by auto
next
  case (3 i x d rest)
  show ?case
  proof
    assume "(k, s) \<in> set (even_entries i (x # d # rest))"
    then consider "k = i \<and> s = x" | "(k, s) \<in> set (even_entries (i + 2) rest)" by auto
    then show "\<exists>j. k = i + 2 * j \<and> 2 * j < length (x # d # rest) \<and> s = (x # d # rest) ! (2 * j)"
    proof cases
      case 1
      then have "k = i + 2 * 0 \<and> 2 * 0 < length (x # d # rest) \<and> s = (x # d # rest) ! (2 * 0)"
        by simp
      then show ?thesis by blast
    next
      case 2
      with 3 obtain j where "k = i + 2 + 2 * j" "2 * j < length rest" "s = rest ! (2 * j)" by auto
      then have "k = i + 2 * Suc j \<and> 2 * Suc j < length (x # d # rest)
          \<and> s = (x # d # rest) ! (2 * Suc j)" by simp
      then show ?thesis by blast
    qed
  next
    assume "\<exists>j. k = i + 2 * j \<and> 2 * j < length (x # d # rest) \<and> s = (x # d # rest) ! (2 * j)"
    then obtain j where j: "k = i + 2 * j" "2 * j < length (x # d # rest)"
      "s = (x # d # rest) ! (2 * j)" by blast
    show "(k, s) \<in> set (even_entries i (x # d # rest))"
    proof (cases j)
      case 0
      with j show ?thesis by simp
    next
      case (Suc j')
      with j have "k = i + 2 + 2 * j' \<and> 2 * j' < length rest \<and> s = rest ! (2 * j')" by simp
      with 3 have "(k, s) \<in> set (even_entries (i + 2) rest)" by blast
      then show ?thesis by simp
    qed
  qed
qed

lemma even_entries_sorted: "sorted_wrt (<) (map fst (even_entries i xs))"
proof (induction i xs rule: even_entries.induct)
  case (3 i x d rest)
  have "\<forall>p \<in> set (even_entries (i + 2) rest). i < fst p"
    using even_entries_mem [of _ _ "i + 2" rest] by fastforce
  with 3 show ?case by simp
qed simp_all

lemma segment_score_pos:
  assumes "i < n"
  shows "0 < segment_score n i s"
proof -
  have n: "0 < (of_nat n :: rat)" using assms by simp
  have gen: "\<bar>x - y / 2\<bar> \<le> y / 2" if "0 \<le> x" "x < y" for x y :: rat
    using that by linarith
  have "\<bar>of_nat i - of_nat n / 2\<bar> \<le> (of_nat n :: rat) / 2"
    using assms by (intro gen) simp_all
  then have h: "\<bar>of_nat i - of_nat n / 2\<bar> / of_nat n \<le> (of_nat n / 2) / (of_nat n :: rat)"
    using n by (simp only: divide_right_mono less_imp_le)
  define q :: rat where "q = \<bar>of_nat i - of_nat n / 2\<bar> / of_nat n"
  have "(of_nat n / 2) / (of_nat n :: rat) = 1 / 2" using n by simp
  with h have "q \<le> 1 / 2" by (simp only: q_def)
  then have p: "1 / 2 \<le> 1 - q" by linarith
  define l :: rat where "l = min (of_nat (length (split_ws (toLowerCase s))) / 20) 1"
  have l: "0 \<le> l" by (simp add: l_def)
  have "0 \<le> l * (6 / 10)" using l by simp
  moreover have "0 < (1 - q) * (4 / 10)" using p by simp
  ultimately have "0 < l * (6 / 10) + (1 - q) * (4 / 10)" by (rule add_nonneg_pos)
  then show ?thesis by (simp only: segment_score_def Let_def l_def q_def)
qed

lemma candidates_mem:
  "i \<in> set (candidates ss) \<longleftrightarrow> (i, ss ! i) \<in> set (even_entries 0 ss) \<and> qualifies (ss ! i)"
proof -
  have "(i, ss ! i) \<in> set (even_entries 0 ss) \<longleftrightarrow> even i \<and> i < length ss"
    unfolding even_entries_mem by (auto elim: evenE)
  then show ?thesis by (auto simp: candidates_def)
qed

lemma even_entries_nth: "(k, s) \<in> set (even_entries 0 ss) \<Longrightarrow> s = ss ! k \<and> k < length ss \<and> even k"
  unfolding even_entries_mem by auto

lemma bestPosition_cases:
  fixes ss :: "string list"
  defines "n \<equiv> length ss" and "bp \<equiv> bestPosition ss"
  shows "(candidates ss = [] \<and> bp = 0)
    \<or> (bp \<in> set (candidates ss)
       \<and> (\<forall>i \<in> set (candidates ss).
             segment_score n i (ss ! i) \<le> segment_score n bp (ss ! bp)
             \<and> (i < bp \<longrightarrow> segment_score n i (ss ! i) < segment_score n bp (ss ! bp))))"
proof -
  define r where "r = scan n 0 ss (0, 0)"
  have bp: "bp = fst r" by (simp add: bp_def bestPosition_def r_def n_def)
  have fm: "first_max n (even_entries 0 ss) (0, 0) r"
    unfolding r_def scan_fold by (rule first_max_fold)
  then consider
    (a) "r = (0, 0)"
      "\<forall>(k, s) \<in> set (even_entries 0 ss). qualifies s \<longrightarrow> segment_score n k s \<le> 0"
  | (b) pre k s post where "even_entries 0 ss = pre @ (k, s) # post" "qualifies s"
      "r = (k, segment_score n k s)"
      "\<forall>(k', s') \<in> set pre. qualifies s' \<longrightarrow> segment_score n k' s' < segment_score n k s"
      "\<forall>(k', s') \<in> set post. qualifies s' \<longrightarrow> segment_score n k' s' \<le> segment_score n k s"
    unfolding first_max_def by auto
  then show ?thesis
  proof cases
    case a
    have "candidates ss = []"
    proof (rule ccontr)
      assume "candidates ss \<noteq> []"
      then obtain i where i: "i \<in> set (candidates ss)" by (cases "candidates ss") auto
      then have m: "(i, ss ! i) \<in> set (even_entries 0 ss)" and q: "qualifies (ss ! i)"
        by (simp_all add: candidates_mem)
      from a(2) m q have "segment_score n i (ss ! i) \<le> 0" by auto
      moreover from even_entries_nth [OF m] have "i < n" by (simp add: n_def)
      then have "0 < segment_score n i (ss ! i)" by (rule segment_score_pos)
      ultimately show False by simp
    qed
    with a(1) bp show ?thesis by simp
  next
    case b
    have km: "(k, s) \<in> set (even_entries 0 ss)" by (simp add: b(1))
    then have s: "s = ss ! k" by (simp add: even_entries_nth)
    have bpk: "bp = k" using bp b(3) by simp
    have c: "k \<in> set (candidates ss)" using km b(2) s by (simp add: candidates_mem)
    have later: "\<forall>p \<in> set post. k < fst p"
      using even_entries_sorted [of 0 ss] unfolding b(1) by (simp add: sorted_wrt_append)
    have "segment_score n i (ss ! i) \<le> segment_score n k (ss ! k)
        \<and> (i < k \<longrightarrow> segment_score n i (ss ! i) < segment_score n k (ss ! k))"
      if i: "i \<in> set (candidates ss)" for i
    proof -
      from i have m: "(i, ss ! i) \<in> set (even_entries 0 ss)" and q: "qualifies (ss ! i)"
        by (simp_all add: candidates_mem)
      from m consider "(i, ss ! i) \<in> set pre" | "(i, ss ! i) = (k, s)" | "(i, ss ! i) \<in> set post"
        unfolding b(1) by auto
      then show ?thesis
      proof cases
        case 1
        with b(4) q have "segment_score n i (ss ! i) < segment_score n k s" by auto
        then show ?thesis by (simp add: s)
      next
        case 2
        then show ?thesis by (simp add: s)
      next
        case 3
        with b(5) q have "segment_score n i (ss ! i) \<le> segment_score n k s" by auto
        moreover from 3 later have "k < i" by auto
        ultimately show ?thesis by (simp add: s)
      qed
    qed
    with c bpk show ?thesis by simp
  qed
qed

lemma bestPosition_facts:
  assumes "ss \<noteq> []"
  shows "bestPosition ss < length ss \<and> even (bestPosition ss)
    \<and> (bestPosition ss = 0 \<or> ss ! bestPosition ss \<noteq> [])"
proof -
  show ?thesis
  proof (cases "bestPosition ss = 0")
    case True
    with assms show ?thesis by simp
  next
    case False
    with bestPosition_cases [of ss] have "bestPosition ss \<in> set (candidates ss)" by blast
    then show ?thesis by (auto simp: candidates_def qualifies_def)
  qed
qed

subsection \<open>The rewritten sentence\<close>

lemma nonspace_append: "nonspace (a @ b) = nonspace a @ nonspace b"
  by (simp add: nonspace_def)

lemma nonspace_Cons_sp: "nonspace (CHR '' '' # s) = nonspace s"
  by (simp add: nonspace_def is_space_def)

lemma nonspace_join_sp: "nonspace (join_sp ws) = concat (map nonspace ws)"
  by (induction ws rule: join_sp.induct) (simp_all add: nonspace_append nonspace_Cons_sp, simp add: nonspace_def)

lemma nonspace_split_ws: "concat (map nonspace (split_ws s)) = nonspace s"
proof -
  have "map nonspace (split_ws s) = split_ws s"
    unfolding split_ws_def nonspace_def
    by (rule map_idI) (auto simp: filter_id_conv dest: split_on_pieces)
  then show ?thesis by (simp add: split_ws_def split_on_concat nonspace_def)
qed

lemma connector_nonspace: "nonspace (connector_at k) \<noteq> []"
proof (cases "0 \<le> k \<and> k < 5")
  case True
  have "length connectors = 5" by (simp add: connectors_def)
  with True have "nat k < length connectors" by linarith
  then have "connectors ! nat k \<in> set connectors" by (rule nth_mem)
  then have "nonspace (connectors ! nat k) \<noteq> []"
    by (auto simp: connectors_def nonspace_def is_space_def)
  with True show ?thesis by (simp add: connector_at_def)
next
  case False
  then show ?thesis by (auto simp: connector_at_def nonspace_def is_space_def)
qed

lemma nonspace_insert_into:
  "nonspace (insert_into rnd kw s)
     = nonspace (join_sp (take (slice_point (insertIndex rnd (length (split_ws s))) (length (split_ws s))) (split_ws s)))
       @ nonspace (connector_at \<lfloor>rnd 1 * 5\<rfloor>) @ nonspace kw
       @ nonspace (join_sp (drop (slice_point (insertIndex rnd (length (split_ws s))) (length (split_ws s))) (split_ws s)))"
  by (simp add: insert_into_def Let_def nonspace_append nonspace_Cons_sp)

lemma length_nonspace_insert_into:
  "length (nonspace (insert_into rnd kw s))
     = length (nonspace s) + length (nonspace (connector_at \<lfloor>rnd 1 * 5\<rfloor>)) + length (nonspace kw)"
proof -
  define ws where "ws = split_ws s"
  define cut where "cut = slice_point (insertIndex rnd (length ws)) (length ws)"
  have "nonspace (join_sp (take cut ws)) @ nonspace (join_sp (drop cut ws))
      = concat (map nonspace (take cut ws @ drop cut ws))"
    by (simp only: nonspace_join_sp map_append concat_append)
  also have "\<dots> = nonspace s" by (simp add: ws_def nonspace_split_ws)
  finally have "length (nonspace (join_sp (take cut ws))) + length (nonspace (join_sp (drop cut ws)))
      = length (nonspace s)" by (metis length_append)
  then show ?thesis
    unfolding nonspace_insert_into by (simp add: ws_def cut_def)
qed

lemma concat_update:
  "i < length xs \<Longrightarrow> concat (xs[i := x]) = concat (take i xs) @ x @ concat (drop (Suc i) xs)"
  by (simp add: upd_conv_take_nth_drop)

lemma concat_nth:
  "i < length xs \<Longrightarrow> concat xs = concat (take i xs) @ xs ! i @ concat (drop (Suc i) xs)"
  by (metis concat_update list_update_id)

lemma update_changes:
  assumes "i < length ss"
  shows "concat (ss[i := insert_into rnd kw (ss ! i)]) \<noteq> concat ss"
proof
  assume e: "concat (ss[i := insert_into rnd kw (ss ! i)]) = concat ss"
  have "concat (take i ss) @ insert_into rnd kw (ss ! i) @ concat (drop (Suc i) ss)
      = concat (take i ss) @ ss ! i @ concat (drop (Suc i) ss)"
    using e concat_update [OF assms] concat_nth [OF assms] by metis
  then have "insert_into rnd kw (ss ! i) = ss ! i" by simp
  then have "length (nonspace (insert_into rnd kw (ss ! i))) = length (nonspace (ss ! i))" by simp
  with length_nonspace_insert_into [of rnd kw "ss ! i"] connector_nonspace [of "\<lfloor>rnd 1 * 5\<rfloor>"]
  show False by simp
qed

text \<open>What \<open>insertKeywordIntelligently\<close> returns, by cases.\<close>

lemma bp_in_range: "bestPosition (split_capture t) < length (split_capture t)"
  using bestPosition_facts [OF split_capture_nonempty] by blast

lemma insert_performed:
  "performs text kw \<Longrightarrow>
     insertKeywordIntelligently rnd text kw =
       concat ((split_capture text)[bestPosition (split_capture text) :=
         insert_into rnd kw (split_capture text ! bestPosition (split_capture text))])"
  by (simp add: insertKeywordIntelligently_def Let_def performs_def bp_in_range)

lemma insert_not_performed:
  "\<not> performs text kw \<Longrightarrow> insertKeywordIntelligently rnd text kw = text"
  by (auto simp: insertKeywordIntelligently_def Let_def performs_def split_capture_concat)

lemma insert_changes: "insertKeywordIntelligently rnd text kw \<noteq> text \<longleftrightarrow> performs text kw"
proof
  assume "insertKeywordIntelligently rnd text kw \<noteq> text"
  then show "performs text kw" using insert_not_performed by blast
next
  assume p: "performs text kw"
  from update_changes [OF bp_in_range [of "text"], where rnd = rnd and kw = kw] show "insertKeywordIntelligently rnd text kw \<noteq> text"
    by (simp add: insert_performed [OF p] split_capture_concat)
qed

subsection \<open>A keyword already there\<close>

text \<open>
  Claim C2. When the lowercased keyword, not empty, occurs inside one of the words that
  splitting the lowercased text on whitespace gives, \<open>insertKeyword\<close> returns the text as
  it is with \<open>inserted = false\<close>, whatever the random source draws.
\<close>

theorem present_unchanged:
  assumes "kw \<noteq> []" and "w \<in> set (split_ws (toLowerCase text))"
    and "w = p @ toLowerCase kw @ q"
  shows "insertKeyword rnd text kw = Inr \<lparr>updatedText = text, inserted = False\<rparr>"
proof -
  have "js_includes w (toLowerCase kw)" using assms(3) unfolding js_includes_iff by blast
  with assms(2) have kp: "keyword_present text kw"
    by (auto simp: keyword_present_def list_ex_iff)
  have "text \<noteq> []"
  proof
    assume "text = []"
    then have "split_ws (toLowerCase text) = [[]]"
      by (simp add: split_ws_def toLowerCase_def split_on_unfold_last)
    with assms(2,3) have "toLowerCase kw = []" by simp
    with assms(1) show False by (simp add: toLowerCase_def)
  qed
  with assms(1) kp show ?thesis
    by (simp add: insertKeyword_def insertKeywordIntelligently_def Let_def)
qed

theorem present_unchanged_witness:
  "insertKeyword (\<lambda>_. 0) ''Cats are great pets.'' ''cats''
     = Inr \<lparr>updatedText = ''Cats are great pets.'', inserted = False\<rparr>
   \<and> insertKeyword (\<lambda>_. 0) ''I start here'' ''art''
     = Inr \<lparr>updatedText = ''I start here'', inserted = False\<rparr>"
proof -
  have a: "''cats'' \<in> set (split_ws (toLowerCase ''Cats are great pets.''))" by code_simp
  have b: "''cats'' = [] @ toLowerCase ''cats'' @ []" by code_simp
  have c: "''start'' \<in> set (split_ws (toLowerCase ''I start here''))" by code_simp
  have d: "''start'' = ''st'' @ toLowerCase ''art'' @ []" by code_simp
  have n: "''cats'' \<noteq> []" "''art'' \<noteq> []" by simp_all
  from present_unchanged [OF n(1) a b, of "\<lambda>_. 0"] present_unchanged [OF n(2) c d, of "\<lambda>_. 0"]
  show ?thesis by simp
qed

subsection \<open>What an insertion changes\<close>

lemma inserted_iff:
  assumes "insertKeyword rnd text kw = Inr r"
  shows "updatedText r = insertKeywordIntelligently rnd text kw"
    and "inserted r \<longleftrightarrow> performs text kw"
  using assms insert_changes [of rnd "text" kw]
  by (auto simp: insertKeyword_def Let_def split: if_splits)

text \<open>
  Claim C3. When \<open>insertKeyword\<close> reports an insertion, the text is the concatenation of
  the entries of its split, segments at the even places and delimiter runs at the odd
  ones, and \<open>updatedText\<close> is the concatenation of the same entries with the one at
  \<open>bestPosition\<close>, a segment, replaced: every other entry is unchanged and in its place.
\<close>

theorem insertion_frame:
  assumes "insertKeyword rnd text kw = Inr r" and "inserted r"
  shows "let ss = split_capture text; bp = bestPosition ss;
             new = insert_into rnd kw (ss ! bp)
         in concat ss = text \<and> bp < length ss \<and> even bp
            \<and> (\<forall>i < length ss.
                  (even i \<longrightarrow> (\<forall>c \<in> set (ss ! i). \<not> is_punct c))
                  \<and> (odd i \<longrightarrow> ss ! i \<noteq> [] \<and> is_punct (hd (ss ! i))))
            \<and> updatedText r = concat (ss[bp := new])
            \<and> length (ss[bp := new]) = length ss
            \<and> (\<forall>i < length ss. i \<noteq> bp \<longrightarrow> ss[bp := new] ! i = ss ! i)
            \<and> text = concat (take bp ss) @ ss ! bp @ concat (drop (Suc bp) ss)
            \<and> updatedText r = concat (take bp ss) @ new @ concat (drop (Suc bp) ss)"
proof -
  define ss where "ss = split_capture text"
  define bp where "bp = bestPosition ss"
  define new where "new = insert_into rnd kw (ss ! bp)"
  have p: "performs text kw" using inserted_iff(2) [OF assms(1)] assms(2) by simp
  have u: "updatedText r = concat (ss[bp := new])"
    using inserted_iff(1) [OF assms(1)] insert_performed [OF p, of rnd]
    by (simp add: ss_def bp_def new_def)
  have c: "concat ss = text" by (simp add: ss_def split_capture_concat)
  have r: "bp < length ss" unfolding bp_def ss_def by (rule bp_in_range)
  have e: "even bp"
    using bestPosition_facts [OF split_capture_nonempty, of "text"] by (simp add: bp_def ss_def)
  have sh: "\<forall>i < length ss.
      (even i \<longrightarrow> (\<forall>c \<in> set (ss ! i). \<not> is_punct c))
      \<and> (odd i \<longrightarrow> ss ! i \<noteq> [] \<and> is_punct (hd (ss ! i)))"
    unfolding ss_def using split_capture_shape by blast
  have t: "text = concat (take bp ss) @ ss ! bp @ concat (drop (Suc bp) ss)"
    using concat_nth [OF r] c by simp
  have u2: "updatedText r = concat (take bp ss) @ new @ concat (drop (Suc bp) ss)"
    using u concat_update [OF r] by simp
  have "concat ss = text \<and> bp < length ss \<and> even bp
      \<and> (\<forall>i < length ss.
            (even i \<longrightarrow> (\<forall>c \<in> set (ss ! i). \<not> is_punct c))
            \<and> (odd i \<longrightarrow> ss ! i \<noteq> [] \<and> is_punct (hd (ss ! i))))
      \<and> updatedText r = concat (ss[bp := new])
      \<and> length (ss[bp := new]) = length ss
      \<and> (\<forall>i < length ss. i \<noteq> bp \<longrightarrow> ss[bp := new] ! i = ss ! i)
      \<and> text = concat (take bp ss) @ ss ! bp @ concat (drop (Suc bp) ss)
      \<and> updatedText r = concat (take bp ss) @ new @ concat (drop (Suc bp) ss)"
    using c r e sh u t u2 by simp
  then show ?thesis unfolding Let_def new_def bp_def ss_def .
qed

theorem insertion_frame_witness:
  "insertKeyword (\<lambda>_. 1 / 2)
     ''This is a reasonably long sentence about pets and their care. Pets need attention.''
     ''nutrition''
   = Inr \<lparr>updatedText =
       ''This is a reasonably long like nutrition sentence about pets and their care. Pets need attention.'',
       inserted = True\<rparr>
   \<and> ''This is a reasonably long like nutrition sentence about pets and their care. Pets need attention.''
     = concat [] @ ''This is a reasonably long like nutrition sentence about pets and their care''
       @ concat [''. '', ''Pets need attention'', ''.'', '''']"
proof -
  let ?t = "''This is a reasonably long sentence about pets and their care. Pets need attention.''"
  let ?r = "\<lparr>updatedText =
       ''This is a reasonably long like nutrition sentence about pets and their care. Pets need attention.'',
       inserted = True\<rparr>"
  have e: "insertKeyword (\<lambda>_. 1 / 2) ?t ''nutrition'' = Inr ?r" by code_simp
  have i: "inserted ?r" by simp
  have ss: "split_capture ?t =
      [''This is a reasonably long sentence about pets and their care'', ''. '',
       ''Pets need attention'', ''.'', '''']" by code_simp
  have bp: "bestPosition [''This is a reasonably long sentence about pets and their care'', ''. '',
       ''Pets need attention'', ''.'', ''''] = 0" by code_simp
  have n: "insert_into (\<lambda>_. 1 / 2) ''nutrition''
      ''This is a reasonably long sentence about pets and their care''
      = ''This is a reasonably long like nutrition sentence about pets and their care''"
    by code_simp
  from insertion_frame [OF e i] e show ?thesis
    unfolding Let_def ss bp by (simp add: n)
qed

subsection \<open>The selected segment\<close>

text \<open>
  Claim C1, as stated, on a text of three segments with six, one and one words. With the
  index and the total counted over segments the scores are 0.38, 0.3633 and 0.3633, and
  the first segment has the greatest. The code takes the index in the split and the length
  of the split, delimiters included (indices 0, 2, 4 of 5 entries): its scores are 0.38,
  0.39 and 0.31, and it selects the second segment.
\<close>

theorem midpoint_counterexample:
  "bestPosition (split_capture ''one two three four five six. bbbbbbbbbb. cccccccccc'') = 2
   \<and> \<not> spec_selects ''one two three four five six. bbbbbbbbbb. cccccccccc''
        (bestPosition (split_capture ''one two three four five six. bbbbbbbbbb. cccccccccc'') div 2)
   \<and> spec_selects ''one two three four five six. bbbbbbbbbb. cccccccccc'' 0"
  by code_simp

text \<open>
  Claim C1, amended. \<open>insertKeywordIntelligently\<close> scores every entry at an even index of
  the split whose trimmed length is at least 10 with
  \<open>0.6 * lengthScore + 0.4 * positionScore\<close>, where \<open>lengthScore\<close> is
  \<open>min(pieces / 20, 1)\<close> for the number of pieces the lowercased entry splits into on
  whitespace, and \<open>positionScore\<close> is \<open>1 - |i - n/2| / n\<close> for the index \<open>i\<close> of the entry in
  the split and the length \<open>n\<close> of the split, delimiters included. It selects the scored
  entry with the greatest score, the first of them on a tie, and index 0 when no entry is
  scored; the insertion goes into the selected entry.
\<close>

theorem bestPosition_selects:
  "let ss = split_capture text; n = length ss; bp = bestPosition ss
   in (\<forall>i s. segment_score n i s =
          min (of_nat (length (split_ws (toLowerCase s))) / 20) 1 * (6 / 10)
          + (1 - \<bar>of_nat i - of_nat n / 2\<bar> / of_nat n) * (4 / 10))
      \<and> (candidates ss = [] \<longrightarrow> bp = 0)
      \<and> (candidates ss \<noteq> [] \<longrightarrow> bp \<in> set (candidates ss))
      \<and> (\<forall>i \<in> set (candidates ss).
            segment_score n i (ss ! i) \<le> segment_score n bp (ss ! bp)
            \<and> (i < bp \<longrightarrow> segment_score n i (ss ! i) < segment_score n bp (ss ! bp)))
      \<and> (\<not> keyword_present text kw \<and> ss ! bp \<noteq> [] \<longrightarrow>
            insertKeywordIntelligently rnd text kw = concat (ss[bp := insert_into rnd kw (ss ! bp)]))"
proof -
  have "(\<not> keyword_present text kw \<and> split_capture text ! bestPosition (split_capture text) \<noteq> [] \<longrightarrow>
      insertKeywordIntelligently rnd text kw
      = concat ((split_capture text)[bestPosition (split_capture text) :=
          insert_into rnd kw (split_capture text ! bestPosition (split_capture text))]))"
    using insert_performed [of "text" kw rnd] by (simp add: performs_def)
  with bestPosition_cases [of "split_capture text"] show ?thesis
    by (auto simp: Let_def segment_score_def)
qed

theorem bestPosition_selects_witness:
  "candidates (split_capture ''one two three four five six. bbbbbbbbbb. cccccccccc'') = [0, 2, 4]
   \<and> bestPosition (split_capture ''one two three four five six. bbbbbbbbbb. cccccccccc'') = 2
   \<and> segment_score 5 0 ''one two three four five six'' < segment_score 5 2 ''bbbbbbbbbb''
   \<and> segment_score 5 4 ''cccccccccc'' \<le> segment_score 5 2 ''bbbbbbbbbb''
   \<and> insertKeywordIntelligently (\<lambda>_. 0) ''one two three four five six. bbbbbbbbbb. cccccccccc'' ''zebra''
       = ''one two three four five six.  including zebra bbbbbbbbbb. cccccccccc''"
proof -
  let ?t = "''one two three four five six. bbbbbbbbbb. cccccccccc''"
  have ss: "split_capture ?t = [''one two three four five six'', ''. '', ''bbbbbbbbbb'', ''. '', ''cccccccccc'']"
    by code_simp
  have c: "candidates [''one two three four five six'', ''. '', ''bbbbbbbbbb'', ''. '', ''cccccccccc''] = [0, 2, 4]"
    by code_simp
  have bp: "bestPosition [''one two three four five six'', ''. '', ''bbbbbbbbbb'', ''. '', ''cccccccccc''] = 2"
    by code_simp
  have l: "length [''one two three four five six'', ''. '', ''bbbbbbbbbb'', ''. '', ''cccccccccc''] = 5"
    by simp
  have kp: "\<not> keyword_present ?t ''zebra''" by code_simp
  have ins: "concat ([''one two three four five six'', ''. '', ''bbbbbbbbbb'', ''. '', ''cccccccccc'']
      [2 := insert_into (\<lambda>_. 0) ''zebra'' ''bbbbbbbbbb''])
      = ''one two three four five six.  including zebra bbbbbbbbbb. cccccccccc''" by code_simp
  note sel = bestPosition_selects [of ?t "''zebra''" "\<lambda>_. 0", unfolded Let_def ss c bp l]
  from sel [THEN conjunct2] kp ins show ?thesis
    unfolding ss c bp by simp
qed

subsection \<open>Keywords with whitespace\<close>

lemma first_segment_nonempty:
  "u \<noteq> [] \<Longrightarrow> \<not> is_punct (hd u) \<Longrightarrow> hd (split_capture u) \<noteq> []"
  by (cases u) (simp_all add: split_capture_hd)

lemma join_sp_chars: "set (join_sp ws) \<subseteq> insert CHR '' '' (\<Union> (set ` set ws))"
  by (induction ws rule: join_sp.induct) auto

lemma split_ws_chars: "w \<in> set (split_ws s) \<Longrightarrow> set w \<subseteq> set s"
proof -
  assume "w \<in> set (split_ws s)"
  then have "set w \<subseteq> set (concat (split_ws s))" by auto
  also have "\<dots> \<subseteq> set s" by (simp add: split_ws_def split_on_concat)
  finally show ?thesis .
qed

lemma insert_into_hd:
  assumes "\<forall>c \<in> set s. \<not> is_punct c"
  shows "insert_into rnd kw s \<noteq> [] \<and> \<not> is_punct (hd (insert_into rnd kw s))"
proof -
  define before where
    "before = join_sp (take (slice_point (insertIndex rnd (length (split_ws s))) (length (split_ws s)))
       (split_ws s))"
  obtain rest where n: "insert_into rnd kw s = before @ CHR '' '' # rest"
    by (simp add: insert_into_def Let_def before_def)
  have "set before \<subseteq> insert CHR '' '' (set s)"
  proof -
    have "set before \<subseteq> insert CHR '' '' (\<Union> (set ` set (take
        (slice_point (insertIndex rnd (length (split_ws s))) (length (split_ws s))) (split_ws s))))"
      unfolding before_def by (rule join_sp_chars)
    also have "\<dots> \<subseteq> insert CHR '' '' (set s)"
      using split_ws_chars [of _ s] by (auto dest: in_set_takeD)
    finally show ?thesis .
  qed
  moreover have "\<not> is_punct CHR '' ''" by (simp add: is_punct_def)
  ultimately have np: "\<forall>c \<in> set (before @ [CHR '' '']). \<not> is_punct c"
    using assms by auto
  have "hd (insert_into rnd kw s) = hd (before @ [CHR '' ''])"
    unfolding n by (cases before) simp_all
  moreover have "hd (before @ [CHR '' '']) \<in> set (before @ [CHR '' ''])"
    by (rule hd_in_set) simp
  ultimately show ?thesis using np n by auto
qed

lemma insert_into_includes:
  "\<exists>p q. insert_into rnd kw s = p @ kw @ q"
proof -
  obtain a b c where "insert_into rnd kw s = a @ '' '' @ b @ '' '' @ kw @ '' '' @ c"
    by (simp add: insert_into_def Let_def)
  then have "insert_into rnd kw s = (a @ '' '' @ b @ '' '') @ kw @ ('' '' @ c)" by simp
  then show ?thesis by blast
qed

lemma reinsertion:
  fixes rnd :: random and kw :: string
  assumes ws: "\<exists>c \<in> set kw. is_space c" and fs: "hd (split_capture text) \<noteq> []"
  defines "u \<equiv> insertKeywordIntelligently rnd text kw"
  shows "insertKeyword rnd text kw = Inr \<lparr>updatedText = u, inserted = True\<rparr>"
    and "js_includes u kw"
    and "hd (split_capture u) \<noteq> []"
    and "length (nonspace u)
         = length (nonspace text) + length (nonspace (connector_at \<lfloor>rnd 1 * 5\<rfloor>))
           + length (nonspace kw)"
proof -
  define ss where "ss = split_capture text"
  define bp where "bp = bestPosition ss"
  define new where "new = insert_into rnd kw (ss ! bp)"
  have ne: "ss \<noteq> []" unfolding ss_def by (rule split_capture_nonempty)
  have facts: "bp < length ss" "even bp" "bp = 0 \<or> ss ! bp \<noteq> []"
    using bestPosition_facts [OF ne] by (simp_all add: bp_def)
  have h0: "ss ! 0 = hd ss" using ne by (simp add: hd_conv_nth)
  have s0: "ss ! 0 \<noteq> []" using fs h0 by (simp add: ss_def)
  have sb: "ss ! bp \<noteq> []" using facts(3) s0 by auto
  have absent: "\<not> keyword_present text kw" using ws by (rule whitespace_keyword_absent)
  have p: "performs text kw" using absent sb by (simp add: performs_def ss_def bp_def)
  have tne: "text \<noteq> []" using fs by (auto simp: split_capture_hd)
  have kne: "kw \<noteq> []" using ws by auto
  have ch: "u \<noteq> text" unfolding u_def using p by (simp add: insert_changes)
  show "insertKeyword rnd text kw = Inr \<lparr>updatedText = u, inserted = True\<rparr>"
    using tne kne ch by (simp add: insertKeyword_def Let_def u_def)
  have u: "u = concat (take bp ss) @ new @ concat (drop (Suc bp) ss)"
    unfolding u_def insert_performed [OF p] using concat_update [OF facts(1)]
    by (simp add: ss_def bp_def new_def)
  have t: "text = concat (take bp ss) @ ss ! bp @ concat (drop (Suc bp) ss)"
    using concat_nth [OF facts(1)] by (simp add: ss_def split_capture_concat)
  obtain p' q' where "new = p' @ kw @ q'" unfolding new_def using insert_into_includes by blast
  then have "u = (concat (take bp ss) @ p') @ kw @ (q' @ concat (drop (Suc bp) ss))"
    using u by simp
  then show "js_includes u kw" unfolding js_includes_iff by blast
  have shape0: "\<forall>c \<in> set (ss ! bp). \<not> is_punct c"
    using split_capture_shape [of bp "text"] facts(1,2) by (simp add: ss_def)
  have seg0: "\<forall>c \<in> set (ss ! 0). \<not> is_punct c"
    using split_capture_shape [of 0 "text"] ne by (simp add: ss_def)
  have "u \<noteq> [] \<and> \<not> is_punct (hd u)"
  proof (cases "bp = 0")
    case True
    have "new \<noteq> [] \<and> \<not> is_punct (hd new)"
      unfolding new_def using shape0 by (rule insert_into_hd)
    then show ?thesis using u True by simp
  next
    case False
    then obtain k where k: "bp = Suc k" by (cases bp) auto
    have "take bp ss = ss ! 0 # take k (tl ss)" using ne k h0 by (cases ss) simp_all
    then have "u = ss ! 0 @ concat (take k (tl ss)) @ new @ concat (drop (Suc bp) ss)"
      using u by simp
    then have "u \<noteq> []" "hd u = hd (ss ! 0)" using s0 by simp_all
    moreover have "hd (ss ! 0) \<in> set (ss ! 0)" using s0 by (rule hd_in_set)
    ultimately show ?thesis using seg0 by simp
  qed
  then show "hd (split_capture u) \<noteq> []" by (simp add: first_segment_nonempty)
  have "length (nonspace u) = length (nonspace (concat (take bp ss))) + length (nonspace new)
      + length (nonspace (concat (drop (Suc bp) ss)))"
    unfolding u by (simp add: nonspace_append)
  moreover have "length (nonspace text) = length (nonspace (concat (take bp ss)))
      + length (nonspace (ss ! bp)) + length (nonspace (concat (drop (Suc bp) ss)))"
    by (subst t) (simp add: nonspace_append)
  ultimately show "length (nonspace u)
         = length (nonspace text) + length (nonspace (connector_at \<lfloor>rnd 1 * 5\<rfloor>))
           + length (nonspace kw)"
    using length_nonspace_insert_into [of rnd kw "ss ! bp"] by (simp add: new_def)
qed

lemma repeated_first_segment:
  assumes "\<exists>c \<in> set kw. is_space c" and "hd (split_capture text) \<noteq> []"
  shows "hd (split_capture (insert_repeatedly rs n text kw)) \<noteq> []"
proof (induction n)
  case 0
  show ?case using assms(2) by simp
next
  case (Suc n)
  from reinsertion(3) [OF assms(1) Suc] show ?case by simp
qed

text \<open>
  Claim C10, as stated, on a text that holds the keyword once. Five calls in a row, each
  on the result of the one before, all return \<open>inserted = true\<close>; with these draws each
  insertion lands between the two words of the one verbatim copy, so after every call the
  text still holds exactly one copy: the copies do not accumulate.
\<close>

theorem copies_counterexample:
  "occurrences ''digital marketing'' ''a b c digital marketing d e f g h'' = 1
   \<and> insertKeyword (inside_draws 0) ''a b c digital marketing d e f g h'' ''digital marketing''
       = Inr \<lparr>updatedText = ''a b c digital such as digital marketing marketing d e f g h'',
              inserted = True\<rparr>
   \<and> occurrences ''digital marketing'' ''a b c digital such as digital marketing marketing d e f g h'' = 1
   \<and> insertKeyword (inside_draws 1) ''a b c digital such as digital marketing marketing d e f g h'' ''digital marketing''
       = Inr \<lparr>updatedText = ''a b c digital such as digital especially digital marketing marketing marketing d e f g h'',
              inserted = True\<rparr>
   \<and> occurrences ''digital marketing'' ''a b c digital such as digital especially digital marketing marketing marketing d e f g h'' = 1
   \<and> insertKeyword (inside_draws 2) ''a b c digital such as digital especially digital marketing marketing marketing d e f g h'' ''digital marketing''
       = Inr \<lparr>updatedText = ''a b c digital such as digital especially digital especially digital marketing marketing marketing marketing d e f g h'',
              inserted = True\<rparr>
   \<and> occurrences ''digital marketing'' ''a b c digital such as digital especially digital especially digital marketing marketing marketing marketing d e f g h'' = 1
   \<and> insertKeyword (inside_draws 3) ''a b c digital such as digital especially digital especially digital marketing marketing marketing marketing d e f g h'' ''digital marketing''
       = Inr \<lparr>updatedText = ''a b c digital such as digital especially digital especially digital especially digital marketing marketing marketing marketing marketing d e f g h'',
              inserted = True\<rparr>
   \<and> occurrences ''digital marketing'' ''a b c digital such as digital especially digital especially digital especially digital marketing marketing marketing marketing marketing d e f g h'' = 1
   \<and> insertKeyword (inside_draws 4) ''a b c digital such as digital especially digital especially digital especially digital marketing marketing marketing marketing marketing d e f g h'' ''digital marketing''
       = Inr \<lparr>updatedText = ''a b c digital such as digital especially digital especially digital especially digital particularly digital marketing marketing marketing marketing marketing marketing d e f g h'',
              inserted = True\<rparr>
   \<and> occurrences ''digital marketing'' ''a b c digital such as digital especially digital especially digital especially digital particularly digital marketing marketing marketing marketing marketing marketing d e f g h'' = 1"
proof -
  have o0: "occurrences ''digital marketing'' ''a b c digital marketing d e f g h'' = 1" by code_simp
  have i0: "insertKeyword (inside_draws 0) ''a b c digital marketing d e f g h'' ''digital marketing''
       = Inr \<lparr>updatedText = ''a b c digital such as digital marketing marketing d e f g h'',
              inserted = True\<rparr>"
    by code_simp
  have o1: "occurrences ''digital marketing'' ''a b c digital such as digital marketing marketing d e f g h'' = 1"
    by code_simp
  have i1: "insertKeyword (inside_draws 1) ''a b c digital such as digital marketing marketing d e f g h'' ''digital marketing''
       = Inr \<lparr>updatedText = ''a b c digital such as digital especially digital marketing marketing marketing d e f g h'',
              inserted = True\<rparr>"
    by code_simp
  have o2: "occurrences ''digital marketing'' ''a b c digital such as digital especially digital marketing marketing marketing d e f g h'' = 1"
    by code_simp
  have i2: "insertKeyword (inside_draws 2) ''a b c digital such as digital especially digital marketing marketing marketing d e f g h'' ''digital marketing''
       = Inr \<lparr>updatedText = ''a b c digital such as digital especially digital especially digital marketing marketing marketing marketing d e f g h'',
              inserted = True\<rparr>"
    by code_simp
  have o3: "occurrences ''digital marketing'' ''a b c digital such as digital especially digital especially digital marketing marketing marketing marketing d e f g h'' = 1"
    by code_simp
  have i3: "insertKeyword (inside_draws 3) ''a b c digital such as digital especially digital especially digital marketing marketing marketing marketing d e f g h'' ''digital marketing''
       = Inr \<lparr>updatedText = ''a b c digital such as digital especially digital especially digital especially digital marketing marketing marketing marketing marketing d e f g h'',
              inserted = True\<rparr>"
    by code_simp
  have o4: "occurrences ''digital marketing'' ''a b c digital such as digital especially digital especially digital especially digital marketing marketing marketing marketing marketing d e f g h'' = 1"
    by code_simp
  have i4: "insertKeyword (inside_draws 4) ''a b c digital such as digital especially digital especially digital especially digital marketing marketing marketing marketing marketing d e f g h'' ''digital marketing''
       = Inr \<lparr>updatedText = ''a b c digital such as digital especially digital especially digital especially digital particularly digital marketing marketing marketing marketing marketing marketing d e f g h'',
              inserted = True\<rparr>"
    by code_simp
  have o5: "occurrences ''digital marketing'' ''a b c digital such as digital especially digital especially digital especially digital particularly digital marketing marketing marketing marketing marketing marketing d e f g h'' = 1"
    by code_simp
  show ?thesis
    by (intro conjI) (fact o0 | fact i0 | fact o1 | fact i1 | fact o2 | fact i2 | fact o3 | fact i3 | fact o4 | fact i4 | fact o5)+
qed

text \<open>
  Claim C10, amended. For a keyword that holds a whitespace character the check for a
  keyword already there never fires. So on every text whose first segment is not empty,
  also on one that holds the keyword verbatim, each call of a series of calls, every one
  on the result of the one before, inserts the keyword again: it returns
  \<open>inserted = true\<close> and a text that holds the keyword and whose content apart from
  whitespace has grown by the connector and the keyword. The number of verbatim copies
  need not grow.
\<close>

theorem whitespace_keyword_reinserted:
  assumes "\<exists>c \<in> set kw. is_space c"
  shows "\<not> keyword_present text kw
    \<and> (hd (split_capture text) \<noteq> [] \<longrightarrow>
         (\<forall>n. \<exists>u. u = insert_repeatedly rs (Suc n) text kw
            \<and> insertKeyword (rs n) (insert_repeatedly rs n text kw) kw
                = Inr \<lparr>updatedText = u, inserted = True\<rparr>
            \<and> js_includes u kw
            \<and> length (nonspace u)
                = length (nonspace (insert_repeatedly rs n text kw))
                  + length (nonspace (connector_at \<lfloor>rs n 1 * 5\<rfloor>)) + length (nonspace kw)))"
proof (intro conjI impI allI)
  show "\<not> keyword_present text kw" using assms by (rule whitespace_keyword_absent)
next
  fix n
  assume "hd (split_capture text) \<noteq> []"
  with assms have h: "hd (split_capture (insert_repeatedly rs n text kw)) \<noteq> []"
    by (rule repeated_first_segment)
  from reinsertion(1,2,4) [OF assms h, of "rs n"]
  show "\<exists>u. u = insert_repeatedly rs (Suc n) text kw
      \<and> insertKeyword (rs n) (insert_repeatedly rs n text kw) kw
          = Inr \<lparr>updatedText = u, inserted = True\<rparr>
      \<and> js_includes u kw
      \<and> length (nonspace u)
          = length (nonspace (insert_repeatedly rs n text kw))
            + length (nonspace (connector_at \<lfloor>rs n 1 * 5\<rfloor>)) + length (nonspace kw)"
    by simp
qed

theorem whitespace_keyword_reinserted_witness:
  "\<not> keyword_present ''We love digital marketing a lot'' ''digital marketing''
   \<and> insertKeyword (\<lambda>_. 1 / 2) ''We love digital marketing a lot'' ''digital marketing''
     = Inr \<lparr>updatedText = ''We love like digital marketing digital marketing a lot'',
            inserted = True\<rparr>
   \<and> js_includes ''We love like digital marketing digital marketing a lot'' ''digital marketing''"
proof -
  let ?t = "''We love digital marketing a lot''" and ?k = "''digital marketing''"
  have h1: "\<exists>c \<in> set ?k. is_space c" by (simp add: is_space_def)
  have h2: "hd (split_capture ?t) \<noteq> []" by code_simp
  have u: "insert_repeatedly (\<lambda>_ _. 1 / 2) (Suc 0) ?t ?k
      = ''We love like digital marketing digital marketing a lot''" by code_simp
  from whitespace_keyword_reinserted [OF h1, of ?t "\<lambda>_ _. 1 / 2"] h2
  have "\<not> keyword_present ?t ?k" and
    "\<forall>n. \<exists>u. u = insert_repeatedly (\<lambda>_ _. 1 / 2) (Suc n) ?t ?k
        \<and> insertKeyword (\<lambda>_. 1 / 2) (insert_repeatedly (\<lambda>_ _. 1 / 2) n ?t ?k) ?k
            = Inr \<lparr>updatedText = u, inserted = True\<rparr>
        \<and> js_includes u ?k
        \<and> length (nonspace u)
            = length (nonspace (insert_repeatedly (\<lambda>_ _. 1 / 2) n ?t ?k))
              + length (nonspace (connector_at \<lfloor>(1 / 2 :: rat) * 5\<rfloor>)) + length (nonspace ?k)"
    by blast+
  from this(1) this(2) [rule_format, of 0] show ?thesis unfolding u by simp
qed

end
